theory Spec2Isabelle
  imports Main "HOL-Library.Word"
begin

section \<open>Byte strings of the ZNC string class\<close>

text \<open>
  \<^verbatim>\<open>CString\<close> (znc/ZNCString.h) is a \<^verbatim>\<open>std::string\<close>: a sequence of bytes, here
  \<^typ>\<open>string\<close>. The module under verification, \<^verbatim>\<open>identserv.cpp\<close>, uses four of its
  members: \<^verbatim>\<open>c_str\<close>, \<^verbatim>\<open>Equals\<close>, \<^verbatim>\<open>TrimPrefix_n\<close> and the constructor from an
  \<^verbatim>\<open>unsigned short\<close>. \<^verbatim>\<open>Equals\<close> and \<^verbatim>\<open>StartsWith\<close> take a case sensitivity that
  defaults to \<^verbatim>\<open>CaseInsensitive\<close>, and the module never passes another one; the
  comparison is C's \<^verbatim>\<open>strcasecmp\<close> on the two \<^verbatim>\<open>c_str()\<close> buffers.
\<close>

definition c_str :: "string \<Rightarrow> string" where
  "c_str s = takeWhile (\<lambda>c. c \<noteq> CHR 0x00) s"

definition isupper :: "char \<Rightarrow> bool" where
  "isupper c = (c \<in> set ''ABCDEFGHIJKLMNOPQRSTUVWXYZ'')"

definition tolower :: "char \<Rightarrow> char" where
  \<comment> \<open>the C locale: the 26 letters of ASCII, every other byte is left as it is\<close>
  "tolower c =
     (case map_of (zip ''ABCDEFGHIJKLMNOPQRSTUVWXYZ'' ''abcdefghijklmnopqrstuvwxyz'') c of
        None \<Rightarrow> c
      | Some l \<Rightarrow> l)"

definition CaseCmp_eq :: "string \<Rightarrow> string \<Rightarrow> bool" where
  \<comment> \<open>\<^verbatim>\<open>strcasecmp(a.c_str(), b.c_str()) == 0\<close>\<close>
  "CaseCmp_eq a b = (map tolower (c_str a) = map tolower (c_str b))"

definition Equals :: "string \<Rightarrow> string \<Rightarrow> bool" where
  \<comment> \<open>\<^verbatim>\<open>a.Equals(b)\<close>, case sensitivity left at its default\<close>
  "Equals a b = CaseCmp_eq a b"

definition Left :: "nat \<Rightarrow> string \<Rightarrow> string" where
  "Left n s = take n s"

definition StartsWith :: "string \<Rightarrow> string \<Rightarrow> bool" where
  \<comment> \<open>\<^verbatim>\<open>s.StartsWith(sPrefix)\<close> is \<^verbatim>\<open>Left(sPrefix.length()).Equals(sPrefix)\<close>\<close>
  "StartsWith s sPrefix = Equals (Left (length sPrefix) s) sPrefix"

definition TrimPrefix_n :: "string \<Rightarrow> string \<Rightarrow> string" where
  \<comment> \<open>a copy of \<open>s\<close>, without \<open>sPrefix\<close> when \<open>s\<close> starts with it\<close>
  "TrimPrefix_n s sPrefix = (if StartsWith s sPrefix then drop (length sPrefix) s else s)"

text \<open>
  \<^verbatim>\<open>bool CIdentServer::AreIPStringsEqual(const CString& sIP1, const CString& sIP2)
  { return sIP1.TrimPrefix_n("::ffff:").Equals(sIP2.TrimPrefix_n("::ffff:")); }\<close>
\<close>

definition AreIPStringsEqual :: "string \<Rightarrow> string \<Rightarrow> bool" where
  "AreIPStringsEqual sIP1 sIP2 =
     Equals (TrimPrefix_n sIP1 ''::ffff:'') (TrimPrefix_n sIP2 ''::ffff:'')"

text \<open>
  The relation as the specification words it: plain equality of the two strings once
  an optional leading \<^verbatim>\<open>::ffff:\<close> has been taken off each of them.
\<close>

definition strip_mapped_prefix :: "string \<Rightarrow> string" where
  "strip_mapped_prefix s = (if take 7 s = ''::ffff:'' then drop 7 s else s)"

definition spec_addressEquivalent :: "string \<Rightarrow> string \<Rightarrow> bool" where
  "spec_addressEquivalent a b = (strip_mapped_prefix a = strip_mapped_prefix b)"

text \<open>Strings on which case folding and the C string terminator change nothing.\<close>

definition plain_text :: "string \<Rightarrow> bool" where
  "plain_text s = list_all (\<lambda>c. c \<noteq> CHR 0x00 \<and> \<not> isupper c) s"

section \<open>Numbers on the wire\<close>

type_synonym u16 = "16 word"

text \<open>
  \<^verbatim>\<open>CString(unsigned short)\<close> writes the number through a \<^verbatim>\<open>stringstream\<close>: its decimal
  digits, no sign and no padding.
\<close>

definition digit_char :: "nat \<Rightarrow> char" where
  "digit_char d = ''0123456789'' ! d"

fun decimal :: "nat \<Rightarrow> string" where
  "decimal n = (if n < 10 then [digit_char n] else decimal (n div 10) @ [digit_char (n mod 10)])"

declare decimal.simps [simp del]

definition CString_ushort :: "u16 \<Rightarrow> string" where
  "CString_ushort i = decimal (unat i)"

text \<open>
  The request line is read by \<^verbatim>\<open>sscanf(sLine.c_str(), "%hu , %hu", &uLocalPort, &uRemotePort)\<close>.
  The model follows the C library directive by directive:
  \<^item> \<^verbatim>\<open>%hu\<close> skips white space (\<^verbatim>\<open>isspace\<close> in the C locale), then takes an optional
    sign and the longest run of decimal digits; no digit is a matching failure. The number
    is converted as \<^verbatim>\<open>strtoul\<close> converts it (a minus sign negates modulo \<open>ULONG_MAX + 1\<close>,
    a number above \<^verbatim>\<open>ULONG_MAX\<close>, which is \<open>2^64 - 1\<close>, becomes \<^verbatim>\<open>ULONG_MAX\<close>) and stored in
    the \<^verbatim>\<open>unsigned short\<close>, which keeps its low 16 bits, as glibc and musl do on a 64-bit
    target (the C standard leaves a number that does not fit undefined);
  \<^item> white space in the format skips any white space of the input, also none;
  \<^item> the comma must be the next character of the input;
  \<^item> whatever follows the second number is never read.
  The result is the number of variables assigned, or \<^verbatim>\<open>EOF\<close> (\<open>-1\<close>) when the input ends
  before the first number starts; a variable that is not assigned keeps its value.
\<close>

definition isspace :: "char \<Rightarrow> bool" where
  "isspace c = ((of_char c :: nat) = 32 \<or> (9 \<le> (of_char c :: nat) \<and> (of_char c :: nat) \<le> 13))"

definition isdigit :: "char \<Rightarrow> bool" where
  "isdigit c = (48 \<le> (of_char c :: nat) \<and> (of_char c :: nat) \<le> 57)"

definition digits_value :: "string \<Rightarrow> nat" where
  "digits_value ds = foldl (\<lambda>a c. 10 * a + ((of_char c :: nat) - 48)) 0 ds"

definition ULONG_MAX :: nat where
  "ULONG_MAX = 18446744073709551615"

definition strtoul_value :: "bool \<Rightarrow> nat \<Rightarrow> nat" where
  "strtoul_value negative n =
     (if ULONG_MAX < n then ULONG_MAX
      else if negative then (ULONG_MAX + 1 - n) mod (ULONG_MAX + 1)
      else n)"

definition scan_hu :: "string \<Rightarrow> (u16 \<times> string) option" where
  "scan_hu s =
     (let s1 = dropWhile isspace s;
          signed = (case s1 of [] \<Rightarrow> False | c # _ \<Rightarrow> c = CHR ''-'' \<or> c = CHR ''+'');
          negative = (case s1 of [] \<Rightarrow> False | c # _ \<Rightarrow> c = CHR ''-'');
          s2 = (if signed then tl s1 else s1);
          ds = takeWhile isdigit s2
      in if ds = [] then None
         else Some (of_nat (strtoul_value negative (digits_value ds)), dropWhile isdigit s2))"

definition sscanf_hu_hu :: "string \<Rightarrow> u16 \<Rightarrow> u16 \<Rightarrow> int \<times> u16 \<times> u16" where
  "sscanf_hu_hu s uLocalPort uRemotePort =
     (case scan_hu s of
        None \<Rightarrow> (if dropWhile isspace s = [] then - 1 else 0, uLocalPort, uRemotePort)
      | Some (v1, rest1) \<Rightarrow>
          (case dropWhile isspace rest1 of
             [] \<Rightarrow> (1, v1, uRemotePort)
           | c # rest2 \<Rightarrow>
               if c = CHR '','' then
                 (case scan_hu rest2 of
                    None \<Rightarrow> (1, v1, uRemotePort)
                  | Some (v2, rest3) \<Rightarrow> (2, v1, v2))
               else (1, v1, uRemotePort)))"

section \<open>The connections the resolver looks at\<close>

text \<open>
  \<^verbatim>\<open>CZNC::Get().GetUserMap()\<close> is a \<^verbatim>\<open>std::map\<close> from user names to users; the resolver
  walks it in the map's order and uses only the users, so the map is the list of its
  users in that order. A user has an ident and a vector of networks; a network has an
  IRC socket or none (\<^verbatim>\<open>GetIRCSock()\<close> returns a null pointer); a socket knows its two
  ports and its two addresses.
\<close>

record CIRCSock =
  GetLocalPort :: u16
  GetRemotePort :: u16
  GetLocalIP :: string
  GetRemoteIP :: string

record CIRCNetwork =
  GetIRCSock :: "CIRCSock option"

record CUser =
  GetIdent :: string
  GetNetworks :: "CIRCNetwork list"

section \<open>\<^verbatim>\<open>CIdentServer::GetResponse\<close>\<close>

text \<open>
  What the two tests of the inner loop compare a socket with: the two ports read from
  the request, the address the request came in on (\<^verbatim>\<open>sSocketIP\<close>) and the address it came
  from (\<^verbatim>\<open>sRemoteIP\<close>).
\<close>

record request =
  uLocalPort :: u16
  uRemotePort :: u16
  sSocketIP :: string
  sRemoteIP :: string

definition exact_match :: "request \<Rightarrow> CIRCSock \<Rightarrow> bool" where
  "exact_match q pSock =
     (GetLocalPort pSock = uLocalPort q \<and>
      GetRemotePort pSock = uRemotePort q \<and>
      AreIPStringsEqual (GetLocalIP pSock) (sSocketIP q))"

definition fallback_match :: "request \<Rightarrow> CIRCSock \<Rightarrow> bool" where
  "fallback_match q pSock =
     (GetRemoteIP pSock = sRemoteIP q \<and>
      GetRemotePort pSock = uRemotePort q \<and>
      AreIPStringsEqual (GetLocalIP pSock) (sSocketIP q))"

text \<open>
  The loop state is the pair \<^verbatim>\<open>(sResponseType, sAddInfo)\<close>. The inner loop over one user's
  networks also returns \<^verbatim>\<open>bFound\<close>: an exact match assigns the pair and breaks, a fallback
  match assigns the pair and goes on, a network without a socket is passed over.
\<close>

type_synonym answer = "string \<times> string"

fun scan_networks :: "request \<Rightarrow> string \<Rightarrow> CIRCNetwork list \<Rightarrow> answer \<Rightarrow> answer \<times> bool" where
  "scan_networks q ident [] a = (a, False)"
| "scan_networks q ident (pNetwork # rest) a =
     (case GetIRCSock pNetwork of
        None \<Rightarrow> scan_networks q ident rest a
      | Some pSock \<Rightarrow>
          if exact_match q pSock then ((''USERID'', ''UNIX : '' @ ident), True)
          else if fallback_match q pSock
            then scan_networks q ident rest (''USERID'', ''UNIX : '' @ ident)
            else scan_networks q ident rest a)"

fun scan_users :: "request \<Rightarrow> CUser list \<Rightarrow> answer \<Rightarrow> answer" where
  "scan_users q [] a = a"
| "scan_users q (pUser # rest) a =
     (case scan_networks q (GetIdent pUser) (GetNetworks pUser) a of
        (a', bFound) \<Rightarrow> if bFound then a' else scan_users q rest a')"

definition format_reply :: "u16 \<Rightarrow> u16 \<Rightarrow> answer \<Rightarrow> string" where
  "format_reply l r a =
     CString_ushort l @ '', '' @ CString_ushort r @ '' : '' @ fst a @ '' : '' @ snd a"

definition GetResponse :: "CUser list \<Rightarrow> string \<Rightarrow> string \<Rightarrow> string \<Rightarrow> string" where
  "GetResponse users sLine sSocketIP' sRemoteIP' =
     (case sscanf_hu_hu (c_str sLine) 0 0 of
        (n, l, r) \<Rightarrow>
          format_reply l r
            (if n = 2
             then scan_users
                    \<lparr>uLocalPort = l, uRemotePort = r, sSocketIP = sSocketIP', sRemoteIP = sRemoteIP'\<rparr>
                    users (''ERROR'', ''NO-USER'')
             else (''ERROR'', ''INVALID-PORT'')))"

text \<open>
  The specification speaks of a snapshot: the connection records in the order the
  resolver meets them. Here that is every socket of every network of every user, in the
  order of the two loops, each with the ident of its user. A network without a socket
  has no record.
\<close>

definition network_records :: "string \<Rightarrow> CIRCNetwork list \<Rightarrow> (string \<times> CIRCSock) list" where
  "network_records ident networks =
     concat (map (\<lambda>pNetwork. case GetIRCSock pNetwork of
                                None \<Rightarrow> []
                              | Some pSock \<Rightarrow> [(ident, pSock)]) networks)"

definition snapshot :: "CUser list \<Rightarrow> (string \<times> CIRCSock) list" where
  "snapshot users =
     concat (map (\<lambda>pUser. network_records (GetIdent pUser) (GetNetworks pUser)) users)"

text \<open>The two loops as one loop over the records of a snapshot.\<close>

fun scan_records :: "request \<Rightarrow> (string \<times> CIRCSock) list \<Rightarrow> answer \<Rightarrow> answer \<times> bool" where
  "scan_records q [] a = (a, False)"
| "scan_records q (rec # rest) a =
     (if exact_match q (snd rec) then ((''USERID'', ''UNIX : '' @ fst rec), True)
      else if fallback_match q (snd rec)
        then scan_records q rest (''USERID'', ''UNIX : '' @ fst rec)
        else scan_records q rest a)"

text \<open>A user's networks with the ones that have no socket left out.\<close>

definition connected_only :: "CUser \<Rightarrow> CUser" where
  "connected_only pUser =
     pUser\<lparr>GetNetworks := filter (\<lambda>pNetwork. GetIRCSock pNetwork \<noteq> None) (GetNetworks pUser)\<rparr>"

text \<open>
  The request line as the specification words it: a 16-bit unsigned number, a comma, a
  16-bit unsigned number, white space allowed around each of the three, and nothing else.
\<close>

definition spec_uint16 :: "string \<Rightarrow> bool" where
  "spec_uint16 ds = (ds \<noteq> [] \<and> list_all isdigit ds \<and> digits_value ds \<le> 65535)"

definition spec_query_line :: "string \<Rightarrow> bool" where
  "spec_query_line s =
     (let t = dropWhile isspace s
      in case dropWhile isspace (dropWhile isdigit t) of
           [] \<Rightarrow> False
         | c # t2 \<Rightarrow>
             c = CHR '','' \<and> spec_uint16 (takeWhile isdigit t) \<and>
             spec_uint16 (takeWhile isdigit (dropWhile isspace t2)) \<and>
             list_all isspace (dropWhile isdigit (dropWhile isspace t2)))"

text \<open>
  The parts a request line is made of, in the words of the C library: white space, a
  number (an optional sign and one or more decimal digits, taken as far as the digits
  go) and what it is stored as in an \<^verbatim>\<open>unsigned short\<close>.
\<close>

definition white :: "string \<Rightarrow> bool" where
  "white ws = list_all isspace ws"

definition opt_sign :: "string \<Rightarrow> bool" where
  "opt_sign sg = (sg = [] \<or> sg = ''+'' \<or> sg = ''-'')"

definition digit_run :: "string \<Rightarrow> bool" where
  "digit_run ds = (ds \<noteq> [] \<and> list_all isdigit ds)"

definition number_ends :: "string \<Rightarrow> bool" where
  \<comment> \<open>what follows the digits of a number does not go on with a digit\<close>
  "number_ends rest = (case rest of [] \<Rightarrow> True | c # u \<Rightarrow> \<not> isdigit c)"

definition no_number :: "string \<Rightarrow> bool" where
  \<comment> \<open>past the white space, the text does not start with a number\<close>
  "no_number t =
     (case t of
        [] \<Rightarrow> True
      | c # u \<Rightarrow> \<not> isspace c \<and> \<not> isdigit c \<and> (c = CHR ''+'' \<or> c = CHR ''-'' \<longrightarrow> number_ends u))"

definition no_comma :: "string \<Rightarrow> bool" where
  \<comment> \<open>past the white space, the text does not start with a comma\<close>
  "no_comma t = (case t of [] \<Rightarrow> True | c # u \<Rightarrow> \<not> isspace c \<and> c \<noteq> CHR '','')"

definition stored_hu :: "string \<Rightarrow> string \<Rightarrow> u16" where
  "stored_hu sg ds = of_nat (strtoul_value (sg = ''-'') (digits_value ds))"

text \<open>
  The relation \<^verbatim>\<open>AreIPStringsEqual\<close> computes, said without the functions of the string
  class: two bytes are the same letter when they are equal or are the upper-case and the
  lower-case form of one ASCII letter; two strings are equal ignoring case when they have
  the same length and the same letters; the prefix is taken off a string whose first seven
  bytes are \<^verbatim>\<open>::ffff:\<close> ignoring case; and what is compared is each string up to its first
  NUL byte (\<open>c_str\<close>), as C reads it.
\<close>

definition same_letter :: "char \<Rightarrow> char \<Rightarrow> bool" where
  "same_letter c d =
     (c = d \<or>
      (c, d) \<in> set (zip ''ABCDEFGHIJKLMNOPQRSTUVWXYZ'' ''abcdefghijklmnopqrstuvwxyz'') \<or>
      (d, c) \<in> set (zip ''ABCDEFGHIJKLMNOPQRSTUVWXYZ'' ''abcdefghijklmnopqrstuvwxyz''))"

definition equal_ignoring_case :: "string \<Rightarrow> string \<Rightarrow> bool" where
  "equal_ignoring_case a b = list_all2 same_letter a b"

definition strip_mapped_prefix_any_case :: "string \<Rightarrow> string" where
  "strip_mapped_prefix_any_case s =
     (if equal_ignoring_case (take 7 s) ''::ffff:'' then drop 7 s else s)"

definition folded_addressEquivalent :: "string \<Rightarrow> string \<Rightarrow> bool" where
  "folded_addressEquivalent a b =
     equal_ignoring_case (c_str (strip_mapped_prefix_any_case a))
                         (c_str (strip_mapped_prefix_any_case b))"

section \<open>The listener and the networks that need it\<close>

text \<open>
  A \<^verbatim>\<open>CIRCNetwork*\<close> in \<^verbatim>\<open>m_activeUsers\<close> counts by its address only. The module keeps a
  pointer to the listening \<^verbatim>\<open>CIdentServer\<close>, or null; the state of the server is its
  \<^verbatim>\<open>std::set<CIRCNetwork*> m_activeUsers\<close>, so \<open>m_identServer\<close> is that set when the pointer
  is set.
\<close>

type_synonym network_ptr = nat

definition IncreaseUseCount :: "network_ptr \<Rightarrow> network_ptr set \<Rightarrow> bool \<times> network_ptr set" where
  "IncreaseUseCount pUser m_activeUsers =
     (if pUser \<in> m_activeUsers then (False, m_activeUsers)
      else (True, insert pUser m_activeUsers))"

definition DecreaseUseCount :: "network_ptr \<Rightarrow> network_ptr set \<Rightarrow> bool \<times> network_ptr set" where
  \<comment> \<open>\<^verbatim>\<open>erase\<close> returns how many elements it removed\<close>
  "DecreaseUseCount pUser m_activeUsers = (pUser \<in> m_activeUsers, m_activeUsers - {pUser})"

definition InUse :: "network_ptr set \<Rightarrow> bool" where
  "InUse m_activeUsers = (m_activeUsers \<noteq> {})"

record CIdentServerMod =
  m_identServer :: "network_ptr set option"
  m_listenFailed :: bool

definition constructed :: CIdentServerMod where
  "constructed = \<lparr>m_identServer = None, m_listenFailed = False\<rparr>"

text \<open>
  What a call does to the listening socket: \<^verbatim>\<open>StartListening()\<close> returned true,
  \<^verbatim>\<open>StartListening()\<close> returned false, \<^verbatim>\<open>Close()\<close> was called.
\<close>

datatype event = Opened | OpenFailed | Closed

text \<open>
  \<^verbatim>\<open>OnIRCConnecting\<close> for the network \<^verbatim>\<open>m_pNetwork\<close>. Whether \<^verbatim>\<open>ListenAll\<close> can bind the port
  is for the host to say: \<open>listen_ok\<close> is what \<^verbatim>\<open>StartListening()\<close> returns if it is called.
\<close>

definition OnIRCConnecting ::
    "bool \<Rightarrow> network_ptr \<Rightarrow> CIdentServerMod \<Rightarrow> CIdentServerMod \<times> event list" where
  "OnIRCConnecting listen_ok m_pNetwork m =
     (case m_identServer m of
        None \<Rightarrow>
          if \<not> listen_ok
          then (m\<lparr>m_listenFailed := True, m_identServer := None\<rparr>, [OpenFailed])
          else (m\<lparr>m_listenFailed := False,
                  m_identServer := Some (snd (IncreaseUseCount m_pNetwork {}))\<rparr>, [Opened])
      | Some m_activeUsers \<Rightarrow>
          (m\<lparr>m_identServer := Some (snd (IncreaseUseCount m_pNetwork m_activeUsers))\<rparr>, []))"

definition NoLongerNeedsIdentServer ::
    "network_ptr \<Rightarrow> CIdentServerMod \<Rightarrow> CIdentServerMod \<times> event list" where
  "NoLongerNeedsIdentServer m_pNetwork m =
     (case m_identServer m of
        None \<Rightarrow> (m, [])
      | Some m_activeUsers \<Rightarrow>
          (let m_activeUsers' = snd (DecreaseUseCount m_pNetwork m_activeUsers)
           in if \<not> InUse m_activeUsers'
              then (m\<lparr>m_identServer := None\<rparr>, [Closed])
              else (m\<lparr>m_identServer := Some m_activeUsers'\<rparr>, [])))"

text \<open>A history of the module: the calls the host makes, one after the other.\<close>

datatype call = Connecting network_ptr bool | NoLongerNeeded network_ptr

fun perform :: "call \<Rightarrow> CIdentServerMod \<Rightarrow> CIdentServerMod \<times> event list" where
  "perform (Connecting pNetwork listen_ok) m = OnIRCConnecting listen_ok pNetwork m"
| "perform (NoLongerNeeded pNetwork) m = NoLongerNeedsIdentServer pNetwork m"

fun run :: "call list \<Rightarrow> CIdentServerMod \<Rightarrow> CIdentServerMod \<times> event list" where
  "run [] m = (m, [])"
| "run (c # cs) m =
     (case perform c m of
        (m', evs) \<Rightarrow> (case run cs m' of (m'', evs') \<Rightarrow> (m'', evs @ evs')))"

definition listening :: "CIdentServerMod \<Rightarrow> bool" where
  "listening m = (m_identServer m \<noteq> None)"

definition consumers :: "CIdentServerMod \<Rightarrow> network_ptr set" where
  "consumers m = (case m_identServer m of None \<Rightarrow> {} | Some m_activeUsers \<Rightarrow> m_activeUsers)"

definition listener_inv :: "CIdentServerMod \<Rightarrow> bool" where
  "listener_inv m = (listening m = (consumers m \<noteq> {}))"

definition binds :: "call \<Rightarrow> bool" where
  \<comment> \<open>a call that would bind the port if the listener is closed\<close>
  "binds c = (case c of Connecting pNetwork listen_ok \<Rightarrow> listen_ok | NoLongerNeeded pNetwork \<Rightarrow> False)"

section \<open>Example connections\<close>

text \<open>
  Three users for the concrete cases below. All three are connected from the local
  address 10.0.0.5 to port 6697 of 1.2.3.4, from the local ports 6667, 7000 and 7001;
  bob's socket reports its local address in the IPv4-mapped form, and bob has one more
  network that is not connected.
\<close>

definition sock_alice :: CIRCSock where
  "sock_alice = \<lparr>GetLocalPort = 6667, GetRemotePort = 6697,
                  GetLocalIP = ''10.0.0.5'', GetRemoteIP = ''1.2.3.4''\<rparr>"

definition sock_bob :: CIRCSock where
  "sock_bob = \<lparr>GetLocalPort = 7000, GetRemotePort = 6697,
                GetLocalIP = ''::ffff:10.0.0.5'', GetRemoteIP = ''1.2.3.4''\<rparr>"

definition sock_carol :: CIRCSock where
  "sock_carol = \<lparr>GetLocalPort = 7001, GetRemotePort = 6697,
                  GetLocalIP = ''10.0.0.5'', GetRemoteIP = ''1.2.3.4''\<rparr>"

definition alice :: CUser where
  "alice = \<lparr>GetIdent = ''alice'', GetNetworks = [\<lparr>GetIRCSock = Some sock_alice\<rparr>]\<rparr>"

definition bob :: CUser where
  "bob = \<lparr>GetIdent = ''bob'',
           GetNetworks = [\<lparr>GetIRCSock = None\<rparr>, \<lparr>GetIRCSock = Some sock_bob\<rparr>]\<rparr>"

definition carol :: CUser where
  "carol = \<lparr>GetIdent = ''carol'', GetNetworks = [\<lparr>GetIRCSock = Some sock_carol\<rparr>]\<rparr>"

definition observed :: "u16 \<Rightarrow> u16 \<Rightarrow> request" where
  \<comment> \<open>a request for the two ports that came in on 10.0.0.5 from 1.2.3.4\<close>
  "observed l r = \<lparr>uLocalPort = l, uRemotePort = r,
                    sSocketIP = ''10.0.0.5'', sRemoteIP = ''1.2.3.4''\<rparr>"

section \<open>Address comparison\<close>

lemma plain_text_map_tolower: "plain_text s \<Longrightarrow> map tolower s = s"
  by (induction s) (auto simp: plain_text_def tolower_def isupper_def)

lemma plain_text_c_str: "plain_text s \<Longrightarrow> c_str s = s"
  by (induction s) (auto simp: plain_text_def c_str_def)

lemma plain_text_take: "plain_text s \<Longrightarrow> plain_text (take n s)"
  unfolding plain_text_def list_all_iff by (auto dest: in_set_takeD)

lemma plain_text_drop: "plain_text s \<Longrightarrow> plain_text (drop n s)"
  unfolding plain_text_def list_all_iff by (auto dest: in_set_dropD)

lemma plain_text_Equals: "plain_text a \<Longrightarrow> plain_text b \<Longrightarrow> Equals a b = (a = b)"
  by (simp add: Equals_def CaseCmp_eq_def plain_text_c_str plain_text_map_tolower)

lemma plain_text_prefix: "plain_text ''::ffff:''"
  by (simp add: plain_text_def isupper_def)

lemma plain_text_TrimPrefix_n:
  assumes "plain_text s"
  shows "TrimPrefix_n s ''::ffff:'' = strip_mapped_prefix s"
proof -
  have len: "length ''::ffff:'' = 7" by simp
  have "Equals (take 7 s) ''::ffff:'' = (take 7 s = ''::ffff:'')"
    by (rule plain_text_Equals [OF plain_text_take [OF assms] plain_text_prefix])
  then show ?thesis
    unfolding TrimPrefix_n_def StartsWith_def Left_def strip_mapped_prefix_def len by simp
qed

lemma plain_text_strip: "plain_text s \<Longrightarrow> plain_text (strip_mapped_prefix s)"
  by (simp add: strip_mapped_prefix_def plain_text_drop)

lemma AreIPStringsEqual_plain:
  "plain_text a \<Longrightarrow> plain_text b \<Longrightarrow> AreIPStringsEqual a b = spec_addressEquivalent a b"
  by (simp add: AreIPStringsEqual_def spec_addressEquivalent_def plain_text_TrimPrefix_n
      plain_text_Equals plain_text_strip)

lemma AreIPStringsEqual_commute: "AreIPStringsEqual a b = AreIPStringsEqual b a"
  by (auto simp: AreIPStringsEqual_def Equals_def CaseCmp_eq_def)

lemmas address_eval =
  AreIPStringsEqual_def TrimPrefix_n_def StartsWith_def Left_def Equals_def CaseCmp_eq_def
  c_str_def tolower_def

lemma mapped_equals_dotted: "AreIPStringsEqual ''::ffff:10.0.0.1'' ''10.0.0.1''"
  by (simp add: address_eval)

lemma dotted_differ: "\<not> AreIPStringsEqual ''10.0.0.1'' ''10.0.0.2''"
  by (simp add: address_eval)

lemma letters_keys: "distinct (map fst (zip ''ABCDEFGHIJKLMNOPQRSTUVWXYZ'' ''abcdefghijklmnopqrstuvwxyz''))"
  by simp

lemma letters_values: "distinct (map snd (zip ''ABCDEFGHIJKLMNOPQRSTUVWXYZ'' ''abcdefghijklmnopqrstuvwxyz''))"
  by simp

lemma lower_not_key:
  "\<forall>p \<in> set (zip ''ABCDEFGHIJKLMNOPQRSTUVWXYZ'' ''abcdefghijklmnopqrstuvwxyz'').
     map_of (zip ''ABCDEFGHIJKLMNOPQRSTUVWXYZ'' ''abcdefghijklmnopqrstuvwxyz'') (snd p) = None"
  by simp

lemma same_value_same_key:
  "distinct (map snd xs) \<Longrightarrow> (a, l) \<in> set xs \<Longrightarrow> (b, l) \<in> set xs \<Longrightarrow> a = b"
  by (induction xs) (auto simp: image_iff)

lemma fold_eq_iff:
  assumes keys: "distinct (map fst Z)" and vals: "distinct (map snd Z)"
    and apart: "\<forall>p \<in> set Z. map_of Z (snd p) = None"
  shows "((case map_of Z c of None \<Rightarrow> c | Some l \<Rightarrow> l) = (case map_of Z d of None \<Rightarrow> d | Some l \<Rightarrow> l)) =
         (c = d \<or> (c, d) \<in> set Z \<or> (d, c) \<in> set Z)"
proof -
  have key: "(x, y) \<in> set Z \<Longrightarrow> map_of Z x = Some y" for x y
    using keys by (rule map_of_is_SomeI)
  have val: "(x, y) \<in> set Z \<Longrightarrow> map_of Z y = None" for x y
    using apart by force
  show ?thesis
  proof (cases "map_of Z c")
    case cn: None
    show ?thesis
    proof (cases "map_of Z d")
      case dn: None
      have "(c, d) \<notin> set Z" "(d, c) \<notin> set Z"
        using key [of c d] key [of d c] cn dn by auto
      then show ?thesis by (simp add: cn dn)
    next
      case ds: (Some l')
      then have in_d: "(d, l') \<in> set Z" by (rule map_of_SomeD)
      have "(c, d) \<notin> set Z" using key [of c d] cn by auto
      moreover have "c \<noteq> d" using cn ds by auto
      moreover have "(d, c) \<in> set Z \<longleftrightarrow> c = l'"
        using key [of d c] ds in_d by auto
      ultimately show ?thesis by (simp add: cn ds)
    qed
  next
    case cs: (Some l)
    then have in_c: "(c, l) \<in> set Z" by (rule map_of_SomeD)
    show ?thesis
    proof (cases "map_of Z d")
      case dn: None
      have "(d, c) \<notin> set Z" using key [of d c] dn by auto
      moreover have "c \<noteq> d" using cs dn by auto
      moreover have "(c, d) \<in> set Z \<longleftrightarrow> l = d"
        using key [of c d] cs in_c by auto
      ultimately show ?thesis by (simp add: cs dn)
    next
      case ds: (Some l')
      then have in_d: "(d, l') \<in> set Z" by (rule map_of_SomeD)
      have "(c, d) \<notin> set Z" using val [of c d] ds by auto
      moreover have "(d, c) \<notin> set Z" using val [of d c] cs by auto
      moreover have "l = l' \<longleftrightarrow> c = d"
      proof
        assume "l = l'"
        with in_c in_d show "c = d" using same_value_same_key [OF vals] by blast
      next
        assume "c = d"
        with cs ds show "l = l'" by simp
      qed
      ultimately show ?thesis by (simp add: cs ds)
    qed
  qed
qed

lemma tolower_same_letter: "(tolower c = tolower d) = same_letter c d"
  unfolding tolower_def same_letter_def
  by (rule fold_eq_iff [OF letters_keys letters_values lower_not_key])

lemma fold_equal_ignoring_case: "(map tolower x = map tolower y) = equal_ignoring_case x y"
proof (induction x arbitrary: y)
  case Nil
  show ?case by (simp add: equal_ignoring_case_def)
next
  case (Cons c x)
  show ?case
  proof (cases y)
    case Nil
    then show ?thesis by (simp add: equal_ignoring_case_def)
  next
    case (Cons d y')
    with Cons.IH [of y'] show ?thesis
      by (simp add: equal_ignoring_case_def tolower_same_letter)
  qed
qed

lemma same_letter_NUL: "same_letter c d \<Longrightarrow> (c = CHR 0x00) = (d = CHR 0x00)"
  unfolding same_letter_def by (elim disjE) (auto dest: set_zip_leftD set_zip_rightD)

lemma equal_ignoring_case_c_str:
  "equal_ignoring_case x y \<Longrightarrow> equal_ignoring_case (c_str x) (c_str y)"
  unfolding equal_ignoring_case_def c_str_def
  by (induction rule: list_all2_induct) (auto dest: same_letter_NUL)

lemma length_takeWhile_all: "length (takeWhile P xs) = length xs \<Longrightarrow> takeWhile P xs = xs"
  by (induction xs) (auto split: if_splits)

lemma StartsWith_mapped:
  "StartsWith s ''::ffff:'' = equal_ignoring_case (take 7 s) ''::ffff:''"
proof -
  have p: "c_str ''::ffff:'' = ''::ffff:''" by (simp add: c_str_def)
  have len: "length ''::ffff:'' = 7" by simp
  have "(map tolower (c_str (take 7 s)) = map tolower ''::ffff:'') =
        (map tolower (take 7 s) = map tolower ''::ffff:'')"
  proof
    assume e: "map tolower (c_str (take 7 s)) = map tolower ''::ffff:''"
    then have "length (map tolower (c_str (take 7 s))) = length (map tolower ''::ffff:'')"
      by (rule arg_cong)
    then have "length (c_str (take 7 s)) = 7" by simp
    moreover have "length (c_str (take 7 s)) \<le> length (take 7 s)"
      unfolding c_str_def by (rule length_takeWhile_le)
    moreover have "length (take 7 s) \<le> 7" by simp
    ultimately have "length (c_str (take 7 s)) = length (take 7 s)" by linarith
    then have "c_str (take 7 s) = take 7 s"
      unfolding c_str_def by (rule length_takeWhile_all)
    with e show "map tolower (take 7 s) = map tolower ''::ffff:''" by simp
  next
    assume e: "map tolower (take 7 s) = map tolower ''::ffff:''"
    then have "equal_ignoring_case (take 7 s) ''::ffff:''"
      by (simp only: fold_equal_ignoring_case)
    then have "equal_ignoring_case (c_str (take 7 s)) (c_str ''::ffff:'')"
      by (rule equal_ignoring_case_c_str)
    then show "map tolower (c_str (take 7 s)) = map tolower ''::ffff:''"
      by (simp only: fold_equal_ignoring_case p)
  qed
  then show ?thesis
    unfolding StartsWith_def Equals_def CaseCmp_eq_def Left_def len p
    by (simp only: fold_equal_ignoring_case)
qed

lemma TrimPrefix_n_mapped: "TrimPrefix_n s ''::ffff:'' = strip_mapped_prefix_any_case s"
proof -
  have len: "length ''::ffff:'' = 7" by simp
  show ?thesis
    unfolding TrimPrefix_n_def strip_mapped_prefix_any_case_def StartsWith_mapped len ..
qed

lemma AreIPStringsEqual_folded: "AreIPStringsEqual a b = folded_addressEquivalent a b"
  unfolding AreIPStringsEqual_def folded_addressEquivalent_def TrimPrefix_n_mapped
    Equals_def CaseCmp_eq_def
  by (rule fold_equal_ignoring_case)

lemma equal_ignoring_case_strip:
  assumes "equal_ignoring_case a b"
  shows "equal_ignoring_case (strip_mapped_prefix_any_case a) (strip_mapped_prefix_any_case b)"
proof -
  from assms have all: "list_all2 same_letter a b" by (simp only: equal_ignoring_case_def)
  have "equal_ignoring_case (take 7 a) (take 7 b)"
    unfolding equal_ignoring_case_def by (rule list_all2_takeI [OF all])
  then have "map tolower (take 7 a) = map tolower (take 7 b)"
    by (simp only: fold_equal_ignoring_case)
  then have same: "equal_ignoring_case (take 7 a) ''::ffff:'' = equal_ignoring_case (take 7 b) ''::ffff:''"
    by (simp only: fold_equal_ignoring_case [symmetric])
  have "equal_ignoring_case (drop 7 a) (drop 7 b)"
    unfolding equal_ignoring_case_def by (rule list_all2_dropI [OF all])
  with assms same show ?thesis
    by (simp add: strip_mapped_prefix_any_case_def)
qed

lemma case_does_not_matter: "equal_ignoring_case a b \<Longrightarrow> AreIPStringsEqual a b"
  unfolding AreIPStringsEqual_folded folded_addressEquivalent_def
  by (intro equal_ignoring_case_c_str equal_ignoring_case_strip)

text \<open>
  Claim C8, as the code has it. \<^verbatim>\<open>AreIPStringsEqual\<close> holds exactly when the two addresses,
  after a leading \<^verbatim>\<open>::ffff:\<close> (in whatever case its letters are) is taken off each of them
  and each is read up to its first NUL byte, have the same length and the same letters:
  byte by byte they are equal or are the two cases of one ASCII letter. So two addresses that
  differ only in the case of ASCII letters are equivalent. On addresses with no upper-case
  letter and no NUL byte the relation is equality after stripping an optional leading
  \<^verbatim>\<open>::ffff:\<close> from each side, as the specification says. \<^verbatim>\<open>::ffff:10.0.0.1\<close> is equivalent
  to \<^verbatim>\<open>10.0.0.1\<close>, \<^verbatim>\<open>10.0.0.1\<close> is not equivalent to \<^verbatim>\<open>10.0.0.2\<close>, and the relation is
  symmetric on all strings.
\<close>

theorem AreIPStringsEqual_meaning:
  "AreIPStringsEqual a b = folded_addressEquivalent a b \<and>
   (equal_ignoring_case a b \<longrightarrow> AreIPStringsEqual a b) \<and>
   (plain_text a \<and> plain_text b \<longrightarrow> AreIPStringsEqual a b = spec_addressEquivalent a b) \<and>
   AreIPStringsEqual ''::ffff:10.0.0.1'' ''10.0.0.1'' \<and>
   \<not> AreIPStringsEqual ''10.0.0.1'' ''10.0.0.2'' \<and>
   AreIPStringsEqual a b = AreIPStringsEqual b a"
proof (intro conjI impI)
  show "AreIPStringsEqual a b = folded_addressEquivalent a b"
    by (rule AreIPStringsEqual_folded)
next
  assume "equal_ignoring_case a b"
  then show "AreIPStringsEqual a b" by (rule case_does_not_matter)
next
  assume "plain_text a \<and> plain_text b"
  then show "AreIPStringsEqual a b = spec_addressEquivalent a b"
    by (simp add: AreIPStringsEqual_plain)
next
  show "AreIPStringsEqual ''::ffff:10.0.0.1'' ''10.0.0.1''" by (rule mapped_equals_dotted)
next
  show "\<not> AreIPStringsEqual ''10.0.0.1'' ''10.0.0.2''" by (rule dotted_differ)
next
  show "AreIPStringsEqual a b = AreIPStringsEqual b a" by (rule AreIPStringsEqual_commute)
qed

theorem AreIPStringsEqual_meaning_witness:
  "plain_text ''::ffff:10.0.0.1'' \<and> plain_text ''10.0.0.1'' \<and>
   AreIPStringsEqual ''::ffff:10.0.0.1'' ''10.0.0.1'' = spec_addressEquivalent ''::ffff:10.0.0.1'' ''10.0.0.1'' \<and>
   spec_addressEquivalent ''::ffff:10.0.0.1'' ''10.0.0.1'' \<and>
   equal_ignoring_case ''::FFFF:2001:DB8::1'' ''::ffff:2001:db8::1'' \<and>
   AreIPStringsEqual ''::FFFF:2001:DB8::1'' ''::ffff:2001:db8::1'' \<and>
   folded_addressEquivalent (''10.0.0.5'' @ [CHR 0x00] @ ''x'') ''::FFFF:10.0.0.5'' \<and>
   AreIPStringsEqual (''10.0.0.5'' @ [CHR 0x00] @ ''x'') ''::FFFF:10.0.0.5''"
proof -
  have p: "plain_text ''::ffff:10.0.0.1'' \<and> plain_text ''10.0.0.1''"
    by (simp add: plain_text_def isupper_def)
  have s: "spec_addressEquivalent ''::ffff:10.0.0.1'' ''10.0.0.1''"
    by (simp add: spec_addressEquivalent_def strip_mapped_prefix_def)
  have e: "equal_ignoring_case ''::FFFF:2001:DB8::1'' ''::ffff:2001:db8::1''"
    by (simp add: equal_ignoring_case_def same_letter_def)
  have f: "folded_addressEquivalent (''10.0.0.5'' @ [CHR 0x00] @ ''x'') ''::FFFF:10.0.0.5''"
    by (simp add: folded_addressEquivalent_def strip_mapped_prefix_any_case_def
        equal_ignoring_case_def same_letter_def c_str_def)
  from AreIPStringsEqual_meaning [of "''::ffff:10.0.0.1''" "''10.0.0.1''"] p
  have 1: "AreIPStringsEqual ''::ffff:10.0.0.1'' ''10.0.0.1'' =
      spec_addressEquivalent ''::ffff:10.0.0.1'' ''10.0.0.1''" by blast
  from AreIPStringsEqual_meaning [of "''::FFFF:2001:DB8::1''" "''::ffff:2001:db8::1''"] e
  have 2: "AreIPStringsEqual ''::FFFF:2001:DB8::1'' ''::ffff:2001:db8::1''" by blast
  from AreIPStringsEqual_meaning [of "''10.0.0.5'' @ [CHR 0x00] @ ''x''" "''::FFFF:10.0.0.5''"] f
  have 3: "AreIPStringsEqual (''10.0.0.5'' @ [CHR 0x00] @ ''x'') ''::FFFF:10.0.0.5''" by blast
  from p s e f 1 2 3 show ?thesis by blast
qed

text \<open>
  Claim C8 as the specification states it fails on letters: the code finds
  \<^verbatim>\<open>2001:DB8::1\<close> and \<^verbatim>\<open>2001:db8::1\<close> equivalent, and the two strings are not equal after
  stripping the prefix.
\<close>

theorem AreIPStringsEqual_folds_case:
  "AreIPStringsEqual ''2001:DB8::1'' ''2001:db8::1'' \<and>
   \<not> spec_addressEquivalent ''2001:DB8::1'' ''2001:db8::1''"
  by (simp add: address_eval spec_addressEquivalent_def strip_mapped_prefix_def)

section \<open>The two loops of the resolver\<close>

lemma scan_networks_records:
  "scan_networks q ident networks a = scan_records q (network_records ident networks) a"
  by (induction networks arbitrary: a) (auto simp: network_records_def split: option.splits)

lemma scan_records_append:
  "scan_records q (xs @ ys) a =
     (case scan_records q xs a of (a', bFound) \<Rightarrow> if bFound then (a', True) else scan_records q ys a')"
  by (induction xs arbitrary: a) auto

lemma scan_users_records:
  "scan_users q users a = fst (scan_records q (snapshot users) a)"
proof (induction users arbitrary: a)
  case Nil
  show ?case by (simp add: snapshot_def)
next
  case (Cons pUser rest)
  have split: "snapshot (pUser # rest) = network_records (GetIdent pUser) (GetNetworks pUser) @ snapshot rest"
    by (simp add: snapshot_def)
  show ?case
    unfolding split scan_records_append
    by (simp add: scan_networks_records Cons.IH split: prod.splits)
qed

lemma scan_records_no_match:
  "\<forall>rec \<in> set rs. \<not> exact_match q (snd rec) \<and> \<not> fallback_match q (snd rec) \<Longrightarrow>
   scan_records q rs a = (a, False)"
  by (induction rs arbitrary: a) auto

lemma scan_records_first_exact:
  "\<forall>rec \<in> set before. \<not> exact_match q (snd rec) \<Longrightarrow> exact_match q (snd r) \<Longrightarrow>
   scan_records q (before @ r # after) a = ((''USERID'', ''UNIX : '' @ fst r), True)"
  by (induction before arbitrary: a) auto

lemma scan_records_last_fallback:
  "\<forall>rec \<in> set (before @ r # after). \<not> exact_match q (snd rec) \<Longrightarrow> fallback_match q (snd r) \<Longrightarrow>
   \<forall>rec \<in> set after. \<not> fallback_match q (snd rec) \<Longrightarrow>
   scan_records q (before @ r # after) a = ((''USERID'', ''UNIX : '' @ fst r), False)"
  by (induction before arbitrary: a) (auto simp: scan_records_no_match)

lemma network_records_connected:
  "network_records ident (filter (\<lambda>pNetwork. GetIRCSock pNetwork \<noteq> None) networks) = network_records ident networks"
  by (induction networks) (auto simp: network_records_def)

lemma records_connected_only:
  "network_records (GetIdent (connected_only pUser)) (GetNetworks (connected_only pUser)) =
   network_records (GetIdent pUser) (GetNetworks pUser)"
  by (simp add: connected_only_def network_records_connected del: not_None_eq)

lemma snapshot_connected_only: "snapshot (map connected_only users) = snapshot users"
  by (induction users) (simp_all add: snapshot_def records_connected_only)

lemma GetResponse_snapshot:
  "snapshot users = snapshot users' \<Longrightarrow> GetResponse users sLine sip rip = GetResponse users' sLine sip rip"
  by (simp add: GetResponse_def scan_users_records split: prod.splits)

lemma GetResponse_parsed:
  "sscanf_hu_hu (c_str sLine) 0 0 = (2, l, r) \<Longrightarrow>
   GetResponse users sLine sip rip =
     format_reply l r (fst (scan_records \<lparr>uLocalPort = l, uRemotePort = r, sSocketIP = sip, sRemoteIP = rip\<rparr> (snapshot users) (''ERROR'', ''NO-USER'')))"
  by (simp add: GetResponse_def scan_users_records)

lemma scan_records_answer:
  "fst (scan_records q rs a) = a \<or> (\<exists>ident. fst (scan_records q rs a) = (''USERID'', ''UNIX : '' @ ident))"
  by (induction rs arbitrary: a) auto

section \<open>Concrete requests\<close>

lemmas scan_eval =
  sscanf_hu_hu_def scan_hu_def c_str_def isspace_def isdigit_def digits_value_def
  strtoul_value_def ULONG_MAX_def

lemmas print_eval = CString_ushort_def decimal.simps digit_char_def

lemma parse_6667_6697: "sscanf_hu_hu (c_str ''6667, 6697'') 0 0 = (2, 6667, 6697)"
  by (simp add: scan_eval)

lemma parse_9999_6697: "sscanf_hu_hu (c_str ''9999, 6697'') 0 0 = (2, 9999, 6697)"
  by (simp add: scan_eval)

lemma parse_6667_7777: "sscanf_hu_hu (c_str ''6667, 7777'') 0 0 = (2, 6667, 7777)"
  by (simp add: scan_eval)

lemma parse_trailing: "sscanf_hu_hu (c_str ''6667, 6697 foo'') 0 0 = (2, 6667, 6697)"
  by (simp add: scan_eval)

lemma parse_no_comma: "sscanf_hu_hu (c_str ''6667 6697'') 0 0 = (1, 6667, 0)"
  by (simp add: scan_eval)

lemma print_0: "CString_ushort 0 = ''0''" by (simp add: print_eval)
lemma print_6667: "CString_ushort 6667 = ''6667''" by (simp add: print_eval)
lemma print_6697: "CString_ushort 6697 = ''6697''" by (simp add: print_eval)
lemma print_7777: "CString_ushort 7777 = ''7777''" by (simp add: print_eval)
lemma print_9999: "CString_ushort 9999 = ''9999''" by (simp add: print_eval)

lemma local_address_alice: "AreIPStringsEqual ''10.0.0.5'' ''10.0.0.5''"
  by (simp add: address_eval)

lemma local_address_bob: "AreIPStringsEqual ''::ffff:10.0.0.5'' ''10.0.0.5''"
  by (simp add: address_eval)

lemma matches_6667_6697:
  "exact_match (observed 6667 6697) sock_alice"
  "\<not> exact_match (observed 6667 6697) sock_bob"
  "\<not> exact_match (observed 6667 6697) sock_carol"
  "fallback_match (observed 6667 6697) sock_bob"
  "fallback_match (observed 6667 6697) sock_carol"
  by (simp_all add: exact_match_def fallback_match_def observed_def sock_alice_def sock_bob_def
      sock_carol_def local_address_alice local_address_bob)

lemma matches_9999_6697:
  "\<not> exact_match (observed 9999 6697) sock_alice"
  "\<not> exact_match (observed 9999 6697) sock_bob"
  "fallback_match (observed 9999 6697) sock_alice"
  "fallback_match (observed 9999 6697) sock_bob"
  by (simp_all add: exact_match_def fallback_match_def observed_def sock_alice_def sock_bob_def
      local_address_alice local_address_bob)

lemma matches_6667_7777:
  "\<not> exact_match (observed 6667 7777) sock_alice"
  "\<not> exact_match (observed 6667 7777) sock_bob"
  "\<not> fallback_match (observed 6667 7777) sock_alice"
  "\<not> fallback_match (observed 6667 7777) sock_bob"
  by (simp_all add: exact_match_def fallback_match_def observed_def sock_alice_def sock_bob_def)

lemma snapshot_alice: "snapshot [alice] = [(''alice'', sock_alice)]"
  by (simp add: snapshot_def network_records_def alice_def)

lemma snapshot_alice_bob: "snapshot [alice, bob] = [(''alice'', sock_alice), (''bob'', sock_bob)]"
  by (simp add: snapshot_def network_records_def alice_def bob_def)

lemma snapshot_bob_alice_carol:
  "snapshot [bob, alice, carol] = [(''bob'', sock_bob), (''alice'', sock_alice), (''carol'', sock_carol)]"
  by (simp add: snapshot_def network_records_def alice_def bob_def carol_def)

section \<open>Which connection answers a request\<close>

text \<open>
  Claim C2. The request line is well formed (\<^verbatim>\<open>sscanf\<close> assigned both ports) and the snapshot
  has a record that matches exactly: the same local port, the same remote port and
  an equivalent local address. Then the reply is \<^verbatim>\<open>USERID\<close> with the ident of the first such
  record. The records before it may match as fallbacks, and whatever comes after it is
  never looked at: the reply is the same for every \<open>after\<close>.
\<close>

theorem exact_match_wins:
  assumes "sscanf_hu_hu (c_str sLine) 0 0 = (2, l, r)"
    and "q = \<lparr>uLocalPort = l, uRemotePort = r, sSocketIP = sip, sRemoteIP = rip\<rparr>"
    and "snapshot users = before @ (ident, pSock) # after"
    and "exact_match q pSock"
    and "\<forall>rec \<in> set before. \<not> exact_match q (snd rec)"
  shows "GetResponse users sLine sip rip =
           CString_ushort l @ '', '' @ CString_ushort r @ '' : USERID : UNIX : '' @ ident"
proof -
  have "scan_records q (snapshot users) (''ERROR'', ''NO-USER'') =
          ((''USERID'', ''UNIX : '' @ ident), True)"
    unfolding assms(3) using scan_records_first_exact [OF assms(5), of "(ident, pSock)"] assms(4)
    by simp
  then show ?thesis
    unfolding GetResponse_parsed [OF assms(1)] assms(2) [symmetric]
    by (simp add: format_reply_def)
qed

theorem exact_match_wins_witness:
  "snapshot [bob, alice, carol] = [(''bob'', sock_bob)] @ (''alice'', sock_alice) # [(''carol'', sock_carol)] \<and>
   fallback_match (observed 6667 6697) sock_bob \<and> exact_match (observed 6667 6697) sock_alice \<and>
   fallback_match (observed 6667 6697) sock_carol \<and>
   GetResponse [bob, alice, carol] ''6667, 6697'' ''10.0.0.5'' ''1.2.3.4'' =
     ''6667, 6697 : USERID : UNIX : alice''"
proof -
  have snap: "snapshot [bob, alice, carol] =
      [(''bob'', sock_bob)] @ (''alice'', sock_alice) # [(''carol'', sock_carol)]"
    by (simp add: snapshot_bob_alice_carol)
  have before: "\<forall>rec \<in> set [(''bob'', sock_bob)]. \<not> exact_match (observed 6667 6697) (snd rec)"
    by (simp add: matches_6667_6697)
  have "GetResponse [bob, alice, carol] ''6667, 6697'' ''10.0.0.5'' ''1.2.3.4'' =
      CString_ushort 6667 @ '', '' @ CString_ushort 6697 @ '' : USERID : UNIX : '' @ ''alice''"
    by (rule exact_match_wins [OF parse_6667_6697 observed_def snap matches_6667_6697(1) before])
  then show ?thesis
    by (simp add: snap matches_6667_6697 print_6667 print_6697)
qed

text \<open>
  Claim C1, as the code has it. The request line is well formed, no record of the snapshot
  matches exactly, and at least one matches as a fallback (remote address, remote port and
  equivalent local address). Then the reply is \<^verbatim>\<open>USERID\<close> with the ident of the last fallback
  match of the snapshot: every fallback match assigns the answer again, so a later one
  overrides an earlier one.
\<close>

theorem last_fallback_wins:
  assumes "sscanf_hu_hu (c_str sLine) 0 0 = (2, l, r)"
    and "q = \<lparr>uLocalPort = l, uRemotePort = r, sSocketIP = sip, sRemoteIP = rip\<rparr>"
    and "\<forall>rec \<in> set (snapshot users). \<not> exact_match q (snd rec)"
    and "snapshot users = before @ (ident, pSock) # after"
    and "fallback_match q pSock"
    and "\<forall>rec \<in> set after. \<not> fallback_match q (snd rec)"
  shows "GetResponse users sLine sip rip =
           CString_ushort l @ '', '' @ CString_ushort r @ '' : USERID : UNIX : '' @ ident"
proof -
  have "scan_records q (snapshot users) (''ERROR'', ''NO-USER'') =
          ((''USERID'', ''UNIX : '' @ ident), False)"
    using scan_records_last_fallback [of before "(ident, pSock)" after q] assms(3-6)
    by simp
  then show ?thesis
    unfolding GetResponse_parsed [OF assms(1)] assms(2) [symmetric]
    by (simp add: format_reply_def)
qed

theorem last_fallback_wins_witness:
  "snapshot [alice, bob] = [(''alice'', sock_alice)] @ (''bob'', sock_bob) # [] \<and>
   \<not> exact_match (observed 9999 6697) sock_alice \<and> \<not> exact_match (observed 9999 6697) sock_bob \<and>
   fallback_match (observed 9999 6697) sock_alice \<and> fallback_match (observed 9999 6697) sock_bob \<and>
   GetResponse [alice, bob] ''9999, 6697'' ''10.0.0.5'' ''1.2.3.4'' =
     ''9999, 6697 : USERID : UNIX : bob''"
proof -
  have snap: "snapshot [alice, bob] = [(''alice'', sock_alice)] @ (''bob'', sock_bob) # []"
    by (simp add: snapshot_alice_bob)
  have none: "\<forall>rec \<in> set (snapshot [alice, bob]). \<not> exact_match (observed 9999 6697) (snd rec)"
    by (simp add: snapshot_alice_bob matches_9999_6697)
  have after: "\<forall>rec \<in> set []. \<not> fallback_match (observed 9999 6697) (snd rec)"
    by simp
  have "GetResponse [alice, bob] ''9999, 6697'' ''10.0.0.5'' ''1.2.3.4'' =
      CString_ushort 9999 @ '', '' @ CString_ushort 6697 @ '' : USERID : UNIX : '' @ ''bob''"
    by (rule last_fallback_wins [OF parse_9999_6697 observed_def none snap matches_9999_6697(4) after])
  then show ?thesis
    by (simp add: snap matches_9999_6697 print_9999 print_6697)
qed

lemma response_alice_bob_9999:
  "GetResponse [alice, bob] ''9999, 6697'' ''10.0.0.5'' ''1.2.3.4'' = ''9999, 6697 : USERID : UNIX : bob''"
  unfolding GetResponse_parsed [OF parse_9999_6697] observed_def [symmetric] snapshot_alice_bob
  by (simp add: matches_9999_6697 format_reply_def print_9999 print_6697)

text \<open>
  Claim C1 as the specification states it fails: alice and bob both match the request
  \<^verbatim>\<open>9999, 6697\<close> as fallbacks, neither matches exactly, alice comes first in the snapshot,
  and the reply does not carry alice's ident.
\<close>

theorem later_fallback_overrides:
  "snapshot [alice, bob] = [(''alice'', sock_alice), (''bob'', sock_bob)] \<and>
   \<not> exact_match (observed 9999 6697) sock_alice \<and> \<not> exact_match (observed 9999 6697) sock_bob \<and>
   fallback_match (observed 9999 6697) sock_alice \<and> fallback_match (observed 9999 6697) sock_bob \<and>
   GetLocalPort sock_alice \<noteq> 9999 \<and> GetLocalPort sock_bob \<noteq> 9999 \<and>
   GetResponse [alice, bob] ''9999, 6697'' ''10.0.0.5'' ''1.2.3.4'' \<noteq>
     ''9999, 6697 : USERID : UNIX : alice''"
proof -
  have ports: "GetLocalPort sock_alice \<noteq> 9999 \<and> GetLocalPort sock_bob \<noteq> 9999"
    by (simp add: sock_alice_def sock_bob_def)
  with snapshot_alice_bob matches_9999_6697 show ?thesis
    by (simp add: response_alice_bob_9999)
qed

text \<open>
  Claim C7. The request line is well formed and no record of the snapshot matches, exactly
  or as a fallback (an empty snapshot is one such). Then the reply is \<^verbatim>\<open>ERROR\<close> with
  \<^verbatim>\<open>NO-USER\<close>, and it carries the two ports read from the line.
\<close>

theorem no_match_no_user:
  assumes "sscanf_hu_hu (c_str sLine) 0 0 = (2, l, r)"
    and "q = \<lparr>uLocalPort = l, uRemotePort = r, sSocketIP = sip, sRemoteIP = rip\<rparr>"
    and "\<forall>rec \<in> set (snapshot users). \<not> exact_match q (snd rec) \<and> \<not> fallback_match q (snd rec)"
  shows "GetResponse users sLine sip rip =
           CString_ushort l @ '', '' @ CString_ushort r @ '' : ERROR : NO-USER''"
  unfolding GetResponse_parsed [OF assms(1)] assms(2) [symmetric]
  by (simp add: scan_records_no_match [OF assms(3)] format_reply_def)

theorem no_match_no_user_witness:
  "GetResponse [] ''6667, 7777'' ''10.0.0.5'' ''1.2.3.4'' = ''6667, 7777 : ERROR : NO-USER'' \<and>
   GetResponse [alice, bob] ''6667, 7777'' ''10.0.0.5'' ''1.2.3.4'' = ''6667, 7777 : ERROR : NO-USER''"
proof -
  have empty: "\<forall>rec \<in> set (snapshot []).
      \<not> exact_match (observed 6667 7777) (snd rec) \<and> \<not> fallback_match (observed 6667 7777) (snd rec)"
    by (simp add: snapshot_def)
  have none: "\<forall>rec \<in> set (snapshot [alice, bob]).
      \<not> exact_match (observed 6667 7777) (snd rec) \<and> \<not> fallback_match (observed 6667 7777) (snd rec)"
    by (simp add: snapshot_alice_bob matches_6667_7777)
  from no_match_no_user [OF parse_6667_7777 observed_def empty]
       no_match_no_user [OF parse_6667_7777 observed_def none]
  show ?thesis by (simp add: print_6667 print_7777)
qed

lemma response_alice_6667:
  "GetResponse [alice] ''6667, 6697'' ''10.0.0.5'' ''1.2.3.4'' = ''6667, 6697 : USERID : UNIX : alice''"
  unfolding GetResponse_parsed [OF parse_6667_6697] observed_def [symmetric] snapshot_alice
  by (simp add: matches_6667_6697 format_reply_def print_6667 print_6697)

lemma response_alice_9999:
  "GetResponse [alice] ''9999, 6697'' ''10.0.0.5'' ''1.2.3.4'' = ''9999, 6697 : USERID : UNIX : alice''"
  unfolding GetResponse_parsed [OF parse_9999_6697] observed_def [symmetric] snapshot_alice
  by (simp add: matches_9999_6697 format_reply_def print_9999 print_6697)

text \<open>
  Claim C3, as the code has it. The only record is alice's, from 10.0.0.5 port 6667 to
  1.2.3.4 port 6697, and the request comes in on 10.0.0.5 from 1.2.3.4. The line
  \<^verbatim>\<open>6667, 6697\<close> is answered \<^verbatim>\<open>6667, 6697 : USERID : UNIX : alice\<close>. The line \<^verbatim>\<open>9999, 6697\<close>
  is answered \<^verbatim>\<open>9999, 6697 : USERID : UNIX : alice\<close> as well: the record matches it as a
  fallback.
\<close>

theorem end_to_end_alice:
  "alice = \<lparr>GetIdent = ''alice'', GetNetworks = [\<lparr>GetIRCSock = Some
       \<lparr>GetLocalPort = 6667, GetRemotePort = 6697, GetLocalIP = ''10.0.0.5'', GetRemoteIP = ''1.2.3.4''\<rparr>\<rparr>]\<rparr> \<and>
   GetResponse [alice] ''6667, 6697'' ''10.0.0.5'' ''1.2.3.4'' = ''6667, 6697 : USERID : UNIX : alice'' \<and>
   GetResponse [alice] ''9999, 6697'' ''10.0.0.5'' ''1.2.3.4'' = ''9999, 6697 : USERID : UNIX : alice''"
proof (intro conjI)
  show "alice = \<lparr>GetIdent = ''alice'', GetNetworks = [\<lparr>GetIRCSock = Some
       \<lparr>GetLocalPort = 6667, GetRemotePort = 6697, GetLocalIP = ''10.0.0.5'', GetRemoteIP = ''1.2.3.4''\<rparr>\<rparr>]\<rparr>"
    by (simp add: alice_def sock_alice_def)
qed (rule response_alice_6667, rule response_alice_9999)

text \<open>
  Claim C3 as the specification states it fails in its second half: the reply to
  \<^verbatim>\<open>9999, 6697\<close> is not \<^verbatim>\<open>9999, 6697 : ERROR : NO-USER\<close>.
\<close>

theorem end_to_end_fallback_answers:
  "GetResponse [alice] ''9999, 6697'' ''10.0.0.5'' ''1.2.3.4'' \<noteq> ''9999, 6697 : ERROR : NO-USER''"
  by (simp add: response_alice_9999)

section \<open>Request lines that are not read as two ports; networks without a socket\<close>

lemma GetResponse_unparsed:
  "sscanf_hu_hu (c_str sLine) 0 0 = (n, l, r) \<Longrightarrow> n \<noteq> 2 \<Longrightarrow>
   GetResponse users sLine sip rip = CString_ushort l @ '', '' @ CString_ushort r @ '' : ERROR : INVALID-PORT''"
  by (simp add: GetResponse_def format_reply_def)

lemma digit_not_sign: "isdigit c \<Longrightarrow> c \<noteq> CHR ''-'' \<and> c \<noteq> CHR ''+''"
  by (auto simp: isdigit_def)

lemma scan_hu_digits:
  assumes "takeWhile isdigit (dropWhile isspace s) \<noteq> []"
  shows "scan_hu s =
     Some (of_nat (strtoul_value False (digits_value (takeWhile isdigit (dropWhile isspace s)))),
           dropWhile isdigit (dropWhile isspace s))"
proof -
  from assms obtain c cs where s1: "dropWhile isspace s = c # cs" and c: "isdigit c"
    by (cases "dropWhile isspace s") (auto split: if_splits)
  from digit_not_sign [OF c] show ?thesis
    using assms by (simp add: scan_hu_def s1 Let_def)
qed

lemma wire_char_not_NUL: "isspace c \<or> isdigit c \<or> c = CHR '','' \<Longrightarrow> c \<noteq> CHR 0x00"
  by (auto simp: isspace_def isdigit_def)

lemma set_split_while: "set xs = set (takeWhile P xs) \<union> set (dropWhile P xs)"
  by (metis set_append takeWhile_dropWhile_id)

lemma spec_query_line_parts:
  assumes "spec_query_line s"
  obtains t2 where
    "dropWhile isspace (dropWhile isdigit (dropWhile isspace s)) = CHR '','' # t2"
    "spec_uint16 (takeWhile isdigit (dropWhile isspace s))"
    "spec_uint16 (takeWhile isdigit (dropWhile isspace t2))"
    "list_all isspace (dropWhile isdigit (dropWhile isspace t2))"
proof (cases "dropWhile isspace (dropWhile isdigit (dropWhile isspace s))")
  case Nil
  with assms have False
    unfolding spec_query_line_def Let_def by (simp only: list.case)
  then show ?thesis ..
next
  case (Cons c t2)
  with assms have
    "c = CHR '','' \<and> spec_uint16 (takeWhile isdigit (dropWhile isspace s)) \<and>
     spec_uint16 (takeWhile isdigit (dropWhile isspace t2)) \<and>
     list_all isspace (dropWhile isdigit (dropWhile isspace t2))"
    unfolding spec_query_line_def Let_def by (simp only: list.case)
  with Cons that show ?thesis by blast
qed

lemma spec_query_line_chars:
  assumes "spec_query_line s"
  shows "\<forall>c \<in> set s. isspace c \<or> isdigit c \<or> c = CHR '',''"
proof -
  define t where "t = dropWhile isspace s"
  from spec_query_line_parts [OF assms] obtain t2 where
    comma: "dropWhile isspace (dropWhile isdigit t) = CHR '','' # t2" and
    rest: "list_all isspace (dropWhile isdigit (dropWhile isspace t2))"
    unfolding t_def by blast
  have a: "\<forall>c \<in> set (takeWhile isspace xs). isspace c" for xs by (blast dest: set_takeWhileD)
  have b: "\<forall>c \<in> set (takeWhile isdigit xs). isdigit c" for xs by (blast dest: set_takeWhileD)
  have c: "\<forall>c \<in> set (dropWhile isdigit (dropWhile isspace t2)). isspace c"
    using rest by (simp only: list_all_iff)
  have "set s = set (takeWhile isspace s) \<union> set t"
    unfolding t_def by (rule set_split_while)
  also have "set t = set (takeWhile isdigit t) \<union> set (dropWhile isdigit t)"
    by (rule set_split_while)
  also have "set (dropWhile isdigit t) =
      set (takeWhile isspace (dropWhile isdigit t)) \<union> set (CHR '','' # t2)"
    unfolding comma [symmetric] by (rule set_split_while)
  also have "set (CHR '','' # t2) = {CHR '',''} \<union> set t2" by simp
  also have "set t2 = set (takeWhile isspace t2) \<union> set (dropWhile isspace t2)"
    by (rule set_split_while)
  also have "set (dropWhile isspace t2) =
      set (takeWhile isdigit (dropWhile isspace t2)) \<union> set (dropWhile isdigit (dropWhile isspace t2))"
    by (rule set_split_while)
  finally have split: "set s = set (takeWhile isspace s) \<union> (set (takeWhile isdigit t) \<union>
      (set (takeWhile isspace (dropWhile isdigit t)) \<union> ({CHR '',''} \<union>
      (set (takeWhile isspace t2) \<union> (set (takeWhile isdigit (dropWhile isspace t2)) \<union>
       set (dropWhile isdigit (dropWhile isspace t2)))))))" .
  show ?thesis
    unfolding split using a b c by blast
qed

lemma spec_query_line_parsed:
  assumes "spec_query_line s"
  shows "fst (sscanf_hu_hu (c_str s) 0 0) = 2"
proof -
  have "\<forall>c \<in> set s. c \<noteq> CHR 0x00"
    using spec_query_line_chars [OF assms] wire_char_not_NUL by blast
  then have cs: "c_str s = s"
    unfolding c_str_def by (simp only: takeWhile_eq_all_conv)
  from spec_query_line_parts [OF assms] obtain t2 where
    comma: "dropWhile isspace (dropWhile isdigit (dropWhile isspace s)) = CHR '','' # t2" and
    u1: "spec_uint16 (takeWhile isdigit (dropWhile isspace s))" and
    u2: "spec_uint16 (takeWhile isdigit (dropWhile isspace t2))"
    by blast
  from u1 have first: "takeWhile isdigit (dropWhile isspace s) \<noteq> []"
    unfolding spec_uint16_def by blast
  from u2 have second: "takeWhile isdigit (dropWhile isspace t2) \<noteq> []"
    unfolding spec_uint16_def by blast
  show ?thesis
    unfolding cs sscanf_hu_hu_def scan_hu_digits [OF first]
    by (simp add: comma scan_hu_digits [OF second])
qed

lemma digit_not_space: "isdigit c \<Longrightarrow> \<not> isspace c"
  by (auto simp: isdigit_def isspace_def)

lemma sign_chars:
  "\<not> isspace CHR ''+''" "\<not> isspace CHR ''-''" "\<not> isdigit CHR ''+''" "\<not> isdigit CHR ''-''"
  "\<not> isspace CHR '',''" "\<not> isdigit CHR '',''"
  by (simp_all add: isspace_def isdigit_def)

lemma dropWhile_white:
  assumes "white ws" and "t = [] \<or> \<not> isspace (hd t)"
  shows "dropWhile isspace (ws @ t) = t"
proof -
  from assms(1) have "dropWhile isspace (ws @ t) = dropWhile isspace t"
    by (intro dropWhile_append2) (simp add: white_def list_all_iff)
  also from assms(2) have "dropWhile isspace t = t" by (cases t) auto
  finally show ?thesis .
qed

lemma digit_run_split:
  assumes "digit_run ds" and "number_ends rest"
  shows "takeWhile isdigit (ds @ rest) = ds" and "dropWhile isdigit (ds @ rest) = rest"
proof -
  from assms(1) have all: "\<And>x. x \<in> set ds \<Longrightarrow> isdigit x"
    by (simp add: digit_run_def list_all_iff)
  from assms(2) have t: "takeWhile isdigit rest = []" and d: "dropWhile isdigit rest = rest"
    by (cases rest; simp add: number_ends_def)+
  show "takeWhile isdigit (ds @ rest) = ds"
    using takeWhile_append2 [of ds isdigit rest] all t by simp
  show "dropWhile isdigit (ds @ rest) = rest"
    using dropWhile_append2 [of ds isdigit rest] all d by simp
qed

lemma scan_hu_body:
  "(let s1 = x;
        signed = (case s1 of [] \<Rightarrow> False | c # _ \<Rightarrow> c = CHR ''-'' \<or> c = CHR ''+'');
        negative = (case s1 of [] \<Rightarrow> False | c # _ \<Rightarrow> c = CHR ''-'');
        s2 = (if signed then tl s1 else s1);
        ds = takeWhile isdigit s2
    in if ds = [] then None
       else Some (of_nat (strtoul_value negative (digits_value ds)) :: u16, dropWhile isdigit s2)) =
     (case x of
        [] \<Rightarrow> None
      | c # u \<Rightarrow>
          if c = CHR ''-'' \<or> c = CHR ''+''
          then (if takeWhile isdigit u = [] then None
                else Some (of_nat (strtoul_value (c = CHR ''-'') (digits_value (takeWhile isdigit u))),
                           dropWhile isdigit u))
          else (if takeWhile isdigit (c # u) = [] then None
                else Some (of_nat (strtoul_value False (digits_value (takeWhile isdigit (c # u)))),
                           dropWhile isdigit (c # u))))"
  by (cases x) (simp_all add: Let_def)

lemma scan_hu_unfold:
  "scan_hu s =
     (case dropWhile isspace s of
        [] \<Rightarrow> None
      | c # u \<Rightarrow>
          if c = CHR ''-'' \<or> c = CHR ''+''
          then (if takeWhile isdigit u = [] then None
                else Some (of_nat (strtoul_value (c = CHR ''-'') (digits_value (takeWhile isdigit u))),
                           dropWhile isdigit u))
          else (if takeWhile isdigit (c # u) = [] then None
                else Some (of_nat (strtoul_value False (digits_value (takeWhile isdigit (c # u)))),
                           dropWhile isdigit (c # u))))"
  unfolding scan_hu_def by (rule scan_hu_body)

lemma scan_hu_number:
  assumes "white ws" and "opt_sign sg" and "digit_run ds" and "number_ends rest"
  shows "scan_hu (ws @ sg @ ds @ rest) = Some (stored_hu sg ds, rest)"
proof -
  from assms(3) obtain d ds' where ds: "ds = d # ds'" and d: "isdigit d"
    by (cases ds) (auto simp: digit_run_def)
  note split = digit_run_split [OF assms(3) assms(4)]
  from split d have tw: "takeWhile isdigit (ds' @ rest) = ds'"
    and dw: "dropWhile isdigit (ds' @ rest) = rest"
    by (simp_all add: ds)
  from assms(2) consider "sg = []" | "sg = ''+''" | "sg = ''-''"
    unfolding opt_sign_def by blast
  then show ?thesis
  proof cases
    case 1
    have s1: "dropWhile isspace (ws @ sg @ ds @ rest) = d # ds' @ rest"
      using dropWhile_white [OF assms(1), of "sg @ ds @ rest"] digit_not_space [OF d]
      by (simp add: 1 ds)
    from digit_not_sign [OF d] show ?thesis
      unfolding scan_hu_unfold s1
      by (simp add: d tw dw stored_hu_def 1 ds)
  next
    case 2
    have s1: "dropWhile isspace (ws @ sg @ ds @ rest) = CHR ''+'' # d # ds' @ rest"
      using dropWhile_white [OF assms(1), of "sg @ ds @ rest"] sign_chars
      by (simp add: 2 ds)
    show ?thesis
      unfolding scan_hu_unfold s1
      by (simp add: d tw dw stored_hu_def 2 ds)
  next
    case 3
    have s1: "dropWhile isspace (ws @ sg @ ds @ rest) = CHR ''-'' # d # ds' @ rest"
      using dropWhile_white [OF assms(1), of "sg @ ds @ rest"] sign_chars
      by (simp add: 3 ds)
    show ?thesis
      unfolding scan_hu_unfold s1
      by (simp add: d tw dw stored_hu_def 3 ds)
  qed
qed

lemma scan_hu_no_number:
  assumes "white ws" and "no_number t"
  shows "scan_hu (ws @ t) = None"
proof -
  from assms(2) have "t = [] \<or> \<not> isspace (hd t)"
    by (cases t) (simp_all add: no_number_def)
  from dropWhile_white [OF assms(1) this] have s1: "dropWhile isspace (ws @ t) = t" .
  show "scan_hu (ws @ t) = None"
  proof (cases t)
    case Nil
    then show ?thesis unfolding scan_hu_unfold s1 by simp
  next
    case (Cons c u)
    with assms(2) have c: "\<not> isdigit c" and u: "c = CHR ''+'' \<or> c = CHR ''-'' \<longrightarrow> number_ends u"
      by (simp_all add: no_number_def)
    from s1 Cons have s1': "dropWhile isspace (ws @ c # u) = c # u" by simp
    show ?thesis
    proof (cases "c = CHR ''+'' \<or> c = CHR ''-''")
      case True
      with u have "number_ends u" by simp
      then have "takeWhile isdigit u = []" by (cases u) (simp_all add: number_ends_def)
      with True show ?thesis unfolding Cons scan_hu_unfold s1' by auto
    next
      case False
      with c show ?thesis unfolding Cons scan_hu_unfold s1' by auto
    qed
  qed
qed

lemma no_comma_start: "no_comma t \<Longrightarrow> t = [] \<or> \<not> isspace (hd t)"
  by (cases t) (simp_all add: no_comma_def)

lemma number_ends_before_comma: "white ws \<Longrightarrow> number_ends (ws @ CHR '','' # x)"
  by (cases ws) (auto simp: number_ends_def white_def sign_chars dest: digit_not_space)

lemma sscanf_no_first:
  assumes "white ws" and "no_number t"
  shows "\<exists>n. sscanf_hu_hu (ws @ t) 0 0 = (n, 0, 0) \<and> n \<noteq> 2"
  unfolding sscanf_hu_hu_def scan_hu_no_number [OF assms] by simp

lemma sscanf_no_comma:
  assumes "white ws1" "opt_sign sg1" "digit_run ds1" "white ws2" "number_ends (ws2 @ t)" "no_comma t"
  shows "sscanf_hu_hu (ws1 @ sg1 @ ds1 @ ws2 @ t) 0 0 = (1, stored_hu sg1 ds1, 0)"
proof -
  have first: "scan_hu (ws1 @ sg1 @ ds1 @ ws2 @ t) = Some (stored_hu sg1 ds1, ws2 @ t)"
    by (rule scan_hu_number [OF assms(1-3) assms(5)])
  have skip: "dropWhile isspace (ws2 @ t) = t"
    by (rule dropWhile_white [OF assms(4) no_comma_start [OF assms(6)]])
  from assms(6) show ?thesis
    unfolding sscanf_hu_hu_def first
    by (simp add: skip no_comma_def split: list.splits)
qed

lemma sscanf_no_second:
  assumes "white ws1" "opt_sign sg1" "digit_run ds1" "white ws2" "white ws3" "no_number t"
  shows "sscanf_hu_hu (ws1 @ sg1 @ ds1 @ ws2 @ CHR '','' # ws3 @ t) 0 0 = (1, stored_hu sg1 ds1, 0)"
proof -
  have first: "scan_hu (ws1 @ sg1 @ ds1 @ ws2 @ CHR '','' # ws3 @ t) =
      Some (stored_hu sg1 ds1, ws2 @ CHR '','' # ws3 @ t)"
    by (rule scan_hu_number [OF assms(1-3) number_ends_before_comma [OF assms(4)]])
  have skip: "dropWhile isspace (ws2 @ CHR '','' # ws3 @ t) = CHR '','' # ws3 @ t"
    using dropWhile_white [OF assms(4), of "CHR '','' # ws3 @ t"] sign_chars by simp
  show ?thesis
    unfolding sscanf_hu_hu_def first
    by (simp add: skip scan_hu_no_number [OF assms(5) assms(6)])
qed

lemma sscanf_both:
  assumes "white ws1" "opt_sign sg1" "digit_run ds1" "white ws2" "white ws3"
    "opt_sign sg2" "digit_run ds2" "number_ends rest"
  shows "sscanf_hu_hu (ws1 @ sg1 @ ds1 @ ws2 @ CHR '','' # ws3 @ sg2 @ ds2 @ rest) 0 0 =
           (2, stored_hu sg1 ds1, stored_hu sg2 ds2)"
proof -
  have first: "scan_hu (ws1 @ sg1 @ ds1 @ ws2 @ CHR '','' # ws3 @ sg2 @ ds2 @ rest) =
      Some (stored_hu sg1 ds1, ws2 @ CHR '','' # ws3 @ sg2 @ ds2 @ rest)"
    by (rule scan_hu_number [OF assms(1-3) number_ends_before_comma [OF assms(4)]])
  have skip: "dropWhile isspace (ws2 @ CHR '','' # ws3 @ sg2 @ ds2 @ rest) =
      CHR '','' # ws3 @ sg2 @ ds2 @ rest"
    using dropWhile_white [OF assms(4), of "CHR '','' # ws3 @ sg2 @ ds2 @ rest"] sign_chars by simp
  show ?thesis
    unfolding sscanf_hu_hu_def first
    by (simp add: skip scan_hu_number [OF assms(5-8)])
qed

lemma GetResponse_same_parse:
  "sscanf_hu_hu (c_str s) 0 0 = sscanf_hu_hu (c_str s') 0 0 \<Longrightarrow>
   GetResponse users s sip rip = GetResponse users s' sip rip"
  by (simp add: GetResponse_def)

lemma c_str_no_NUL: "\<forall>c \<in> set s. c \<noteq> CHR 0x00 \<Longrightarrow> c_str s = s"
  by (simp add: c_str_def takeWhile_eq_all_conv)

lemma number_no_NUL:
  assumes "white ws" "opt_sign sg" "digit_run ds"
  shows "\<forall>c \<in> set (ws @ sg @ ds). c \<noteq> CHR 0x00"
proof -
  from assms(1) have "\<forall>c \<in> set ws. c \<noteq> CHR 0x00"
    by (auto simp: white_def list_all_iff isspace_def)
  moreover from assms(2) have "\<forall>c \<in> set sg. c \<noteq> CHR 0x00"
    by (auto simp: opt_sign_def)
  moreover from assms(3) have "\<forall>c \<in> set ds. c \<noteq> CHR 0x00"
    by (auto simp: digit_run_def list_all_iff isdigit_def)
  ultimately show ?thesis by auto
qed

lemma stored_hu_plain:
  "sg \<noteq> ''-'' \<Longrightarrow> digits_value ds \<le> ULONG_MAX \<Longrightarrow> unat (stored_hu sg ds) = digits_value ds mod 65536"
  by (simp add: stored_hu_def strtoul_value_def unat_of_nat)

lemma stored_hu_overflow: "ULONG_MAX < digits_value ds \<Longrightarrow> stored_hu sg ds = 65535"
  by (simp add: stored_hu_def strtoul_value_def ULONG_MAX_def)

lemma stored_hu_minus:
  assumes "digits_value ds \<le> ULONG_MAX"
  shows "stored_hu ''-'' ds = - of_nat (digits_value ds)"
proof -
  define n where "n = digits_value ds"
  from assms have le: "n \<le> 18446744073709551616" and small: "\<not> 18446744073709551615 < n"
    by (simp_all add: n_def ULONG_MAX_def)
  have z: "(of_nat 18446744073709551616 :: u16) = 0" by simp
  have "(of_nat ((18446744073709551616 - n) mod 18446744073709551616) :: u16) = - of_nat n"
  proof (cases "n = 0")
    case True
    then show ?thesis by simp
  next
    case False
    then have "(18446744073709551616 - n) mod 18446744073709551616 = 18446744073709551616 - n"
      by simp
    then show ?thesis
      using of_nat_diff [OF le, where ?'a = u16] z by simp
  qed
  with small show ?thesis
    by (simp add: stored_hu_def strtoul_value_def ULONG_MAX_def n_def)
qed

lemma white_split:
  obtains ws t where "s = ws @ t" "white ws" "t = [] \<or> \<not> isspace (hd t)"
proof
  show "s = takeWhile isspace s @ dropWhile isspace s" by simp
  show "white (takeWhile isspace s)"
    by (auto simp: white_def list_all_iff dest: set_takeWhileD)
  show "dropWhile isspace s = [] \<or> \<not> isspace (hd (dropWhile isspace s))"
    using hd_dropWhile [of isspace s] by blast
qed

lemma digits_split:
  assumes "isdigit d"
  obtains ds rest where "d # u = ds @ rest" "digit_run ds" "number_ends rest"
proof
  show "d # u = takeWhile isdigit (d # u) @ dropWhile isdigit (d # u)"
    by (simp only: takeWhile_dropWhile_id)
  show "digit_run (takeWhile isdigit (d # u))"
    using assms by (auto simp: digit_run_def list_all_iff dest: set_takeWhileD)
  show "number_ends (dropWhile isdigit (d # u))"
    using hd_dropWhile [of isdigit "d # u"]
    by (cases "dropWhile isdigit (d # u)") (simp_all add: number_ends_def)
qed

lemma number_or_not:
  assumes "t = [] \<or> \<not> isspace (hd t)"
  shows "no_number t \<or> (\<exists>sg ds rest. t = sg @ ds @ rest \<and> opt_sign sg \<and> digit_run ds \<and> number_ends rest)"
proof (cases t)
  case Nil
  then show ?thesis by (simp add: no_number_def)
next
  case (Cons c u)
  with assms have sp: "\<not> isspace c" by simp
  show ?thesis
  proof (cases "isdigit c")
    case True
    from digits_split [OF True, of u] obtain ds rest where
      "c # u = ds @ rest" "digit_run ds" "number_ends rest" by blast
    then have "t = [] @ ds @ rest \<and> opt_sign [] \<and> digit_run ds \<and> number_ends rest"
      by (simp add: Cons opt_sign_def)
    then show ?thesis by blast
  next
    case nd: False
    show ?thesis
    proof (cases "c = CHR ''+'' \<or> c = CHR ''-''")
      case False
      with sp nd have "no_number t" by (simp add: Cons no_number_def)
      then show ?thesis ..
    next
      case sgn: True
      show ?thesis
      proof (cases "number_ends u")
        case True
        with sp nd have "no_number t" by (simp add: Cons no_number_def)
        then show ?thesis ..
      next
        case False
        then obtain d u' where u: "u = d # u'" and d: "isdigit d"
          by (cases u) (simp_all add: number_ends_def)
        from digits_split [OF d, of u'] obtain ds rest where
          "d # u' = ds @ rest" "digit_run ds" "number_ends rest" by blast
        with sgn have "t = [c] @ ds @ rest \<and> opt_sign [c] \<and> digit_run ds \<and> number_ends rest"
          by (auto simp: Cons u opt_sign_def)
        then show ?thesis by blast
      qed
    qed
  qed
qed

lemma comma_or_not:
  assumes "t = [] \<or> \<not> isspace (hd t)"
  shows "no_comma t \<or> (\<exists>v. t = CHR '','' # v)"
  using assms by (cases t) (auto simp: no_comma_def)

lemma request_line_shapes:
  "(\<exists>ws1 t. s = ws1 @ t \<and> white ws1 \<and> no_number t) \<or>
   (\<exists>ws1 sg1 ds1 ws2 t. s = ws1 @ sg1 @ ds1 @ ws2 @ t \<and> white ws1 \<and> opt_sign sg1 \<and> digit_run ds1 \<and>
       white ws2 \<and> number_ends (ws2 @ t) \<and> no_comma t) \<or>
   (\<exists>ws1 sg1 ds1 ws2 ws3 t. s = ws1 @ sg1 @ ds1 @ ws2 @ CHR '','' # ws3 @ t \<and> white ws1 \<and> opt_sign sg1 \<and>
       digit_run ds1 \<and> white ws2 \<and> white ws3 \<and> no_number t) \<or>
   (\<exists>ws1 sg1 ds1 ws2 ws3 sg2 ds2 rest. s = ws1 @ sg1 @ ds1 @ ws2 @ CHR '','' # ws3 @ sg2 @ ds2 @ rest \<and>
       white ws1 \<and> opt_sign sg1 \<and> digit_run ds1 \<and> white ws2 \<and> white ws3 \<and>
       opt_sign sg2 \<and> digit_run ds2 \<and> number_ends rest)"
  (is "?A \<or> ?B \<or> ?C \<or> ?D")
proof -
  obtain ws1 t0 where s: "s = ws1 @ t0" and w1: "white ws1" and h0: "t0 = [] \<or> \<not> isspace (hd t0)"
    by (rule white_split)
  from number_or_not [OF h0] show ?thesis
  proof
    assume "no_number t0"
    with s w1 have ?A by blast
    then show ?thesis ..
  next
    assume "\<exists>sg ds rest. t0 = sg @ ds @ rest \<and> opt_sign sg \<and> digit_run ds \<and> number_ends rest"
    then obtain sg1 ds1 u where t0: "t0 = sg1 @ ds1 @ u" and n1: "opt_sign sg1" "digit_run ds1"
      and e1: "number_ends u" by blast
    obtain ws2 t where u: "u = ws2 @ t" and w2: "white ws2" and h: "t = [] \<or> \<not> isspace (hd t)"
      by (rule white_split)
    from comma_or_not [OF h] show ?thesis
    proof
      assume "no_comma t"
      with s t0 u w1 n1 w2 e1 have ?B by blast
      then show ?thesis by blast
    next
      assume "\<exists>v. t = CHR '','' # v"
      then obtain v where t: "t = CHR '','' # v" ..
      obtain ws3 t' where v: "v = ws3 @ t'" and w3: "white ws3" and h': "t' = [] \<or> \<not> isspace (hd t')"
        by (rule white_split)
      have line: "s = ws1 @ sg1 @ ds1 @ ws2 @ CHR '','' # ws3 @ t'"
        by (simp add: s t0 u t v)
      from number_or_not [OF h'] show ?thesis
      proof
        assume "no_number t'"
        with line w1 n1 w2 w3 have ?C by blast
        then show ?thesis by blast
      next
        assume "\<exists>sg ds rest. t' = sg @ ds @ rest \<and> opt_sign sg \<and> digit_run ds \<and> number_ends rest"
        then obtain sg2 ds2 rest where t': "t' = sg2 @ ds2 @ rest" and n2: "opt_sign sg2" "digit_run ds2"
          and e2: "number_ends rest" by blast
        from line have "s = ws1 @ sg1 @ ds1 @ ws2 @ CHR '','' # ws3 @ sg2 @ ds2 @ rest"
          by (simp add: t')
        with w1 n1 w2 w3 n2 e2 have ?D by blast
        then show ?thesis by blast
      qed
    qed
  qed
qed

lemma scan_users_answer:
  "scan_users q users (''ERROR'', ''NO-USER'') = (''ERROR'', ''NO-USER'') \<or>
   (\<exists>ident. scan_users q users (''ERROR'', ''NO-USER'') = (''USERID'', ''UNIX : '' @ ident))"
  unfolding scan_users_records by (rule scan_records_answer)

lemma GetResponse_no_first:
  assumes "c_str sLine = ws1 @ t" "white ws1" "no_number t"
  shows "GetResponse users sLine sip rip = ''0, 0 : ERROR : INVALID-PORT''"
    and "\<not> spec_query_line sLine"
proof -
  from sscanf_no_first [OF assms(2,3)] obtain n where
    p: "sscanf_hu_hu (c_str sLine) 0 0 = (n, 0, 0)" and n: "n \<noteq> 2"
    unfolding assms(1) by blast
  from GetResponse_unparsed [OF p n, of users sip rip]
  show "GetResponse users sLine sip rip = ''0, 0 : ERROR : INVALID-PORT''"
    by (simp add: print_0)
  from spec_query_line_parsed [of sLine] p n show "\<not> spec_query_line sLine" by auto
qed

lemma GetResponse_first_only:
  assumes "sscanf_hu_hu (c_str sLine) 0 0 = (1, l, 0)"
  shows "GetResponse users sLine sip rip = CString_ushort l @ '', 0 : ERROR : INVALID-PORT''"
    and "\<not> spec_query_line sLine"
proof -
  have n: "(1::int) \<noteq> 2" by simp
  from GetResponse_unparsed [OF assms n, of users sip rip]
  show "GetResponse users sLine sip rip = CString_ushort l @ '', 0 : ERROR : INVALID-PORT''"
    by (simp add: print_0)
  from spec_query_line_parsed [of sLine] assms show "\<not> spec_query_line sLine" by auto
qed

lemma white_no_NUL: "white ws \<Longrightarrow> \<forall>c \<in> set ws. c \<noteq> CHR 0x00"
  by (auto simp: white_def list_all_iff isspace_def)

lemma pair_no_NUL:
  assumes "white ws1" "opt_sign sg1" "digit_run ds1" "white ws2" "white ws3"
    "opt_sign sg2" "digit_run ds2"
  shows "\<forall>c \<in> set (ws1 @ sg1 @ ds1 @ ws2 @ CHR '','' # ws3 @ sg2 @ ds2). c \<noteq> CHR 0x00"
proof
  fix c assume "c \<in> set (ws1 @ sg1 @ ds1 @ ws2 @ CHR '','' # ws3 @ sg2 @ ds2)"
  then consider "c \<in> set (ws1 @ sg1 @ ds1)" | "c \<in> set ws2" | "c = CHR '',''"
    | "c \<in> set (ws3 @ sg2 @ ds2)"
    by (simp only: set_append set_simps Un_iff insert_iff) blast
  then show "c \<noteq> CHR 0x00"
  proof cases
    case 1
    with number_no_NUL [OF assms(1-3)] show ?thesis by blast
  next
    case 2
    with white_no_NUL [OF assms(4)] show ?thesis by blast
  next
    case 3
    then show ?thesis by simp
  next
    case 4
    with number_no_NUL [OF assms(5-7)] show ?thesis by blast
  qed
qed

lemma sscanf_pair_alone:
  assumes "white ws1" "opt_sign sg1" "digit_run ds1" "white ws2" "white ws3"
    "opt_sign sg2" "digit_run ds2"
  shows "sscanf_hu_hu (c_str (ws1 @ sg1 @ ds1 @ ws2 @ CHR '','' # ws3 @ sg2 @ ds2)) 0 0 =
      (2, stored_hu sg1 ds1, stored_hu sg2 ds2)"
proof -
  have e: "number_ends []" by (simp add: number_ends_def)
  have "sscanf_hu_hu (ws1 @ sg1 @ ds1 @ ws2 @ CHR '','' # ws3 @ sg2 @ ds2 @ []) 0 0 =
      (2, stored_hu sg1 ds1, stored_hu sg2 ds2)"
    by (rule sscanf_both [OF assms e])
  then show ?thesis
    unfolding c_str_no_NUL [OF pair_no_NUL [OF assms]] by (simp only: append_Nil2)
qed

lemma GetResponse_both:
  assumes line: "c_str sLine = ws1 @ sg1 @ ds1 @ ws2 @ CHR '','' # ws3 @ sg2 @ ds2 @ rest"
    and parts: "white ws1" "opt_sign sg1" "digit_run ds1" "white ws2" "white ws3"
      "opt_sign sg2" "digit_run ds2"
    and rest: "number_ends rest"
  shows "GetResponse users sLine sip rip =
           format_reply (stored_hu sg1 ds1) (stored_hu sg2 ds2)
             (scan_users \<lparr>uLocalPort = stored_hu sg1 ds1, uRemotePort = stored_hu sg2 ds2,
                           sSocketIP = sip, sRemoteIP = rip\<rparr> users (''ERROR'', ''NO-USER''))"
    and "GetResponse users sLine sip rip =
           GetResponse users (ws1 @ sg1 @ ds1 @ ws2 @ CHR '','' # ws3 @ sg2 @ ds2) sip rip"
proof -
  have p: "sscanf_hu_hu (c_str sLine) 0 0 = (2, stored_hu sg1 ds1, stored_hu sg2 ds2)"
    unfolding line by (rule sscanf_both [OF parts rest])
  show "GetResponse users sLine sip rip =
           format_reply (stored_hu sg1 ds1) (stored_hu sg2 ds2)
             (scan_users \<lparr>uLocalPort = stored_hu sg1 ds1, uRemotePort = stored_hu sg2 ds2,
                           sSocketIP = sip, sRemoteIP = rip\<rparr> users (''ERROR'', ''NO-USER''))"
    unfolding GetResponse_def p by simp
  show "GetResponse users sLine sip rip =
           GetResponse users (ws1 @ sg1 @ ds1 @ ws2 @ CHR '','' # ws3 @ sg2 @ ds2) sip rip"
    by (rule GetResponse_same_parse) (simp only: p sscanf_pair_alone [OF parts])
qed

text \<open>
  Claim C4, as the code has it. The line is read up to its first NUL byte. A number is an
  optional sign and decimal digits, taken as far as the digits go, and it is stored in 16
  bits: its value modulo 65536 when it has no minus sign and is at most \<open>2^64 - 1\<close>, the
  negative of that modulo 65536 when it has a minus sign, and 65535 when it is above
  \<open>2^64 - 1\<close>. Every line has one of four shapes.
  \<^item> After white space it does not start with a number: the reply is
    \<^verbatim>\<open>0, 0 : ERROR : INVALID-PORT\<close>.
  \<^item> It starts with a number, and what follows the number and white space is not a comma:
    the reply is \<^verbatim>\<open>ERROR\<close> with \<^verbatim>\<open>INVALID-PORT\<close>, its local port is the first number as
    stored and its remote port is 0.
  \<^item> It starts with a number and a comma, and after the comma and white space there is no
    number: the same reply.
  \<^item> It starts with a number, a comma and a number: whatever follows the second number,
    the line is answered as the request for the two numbers as stored, \<^verbatim>\<open>NO-USER\<close> or
    \<^verbatim>\<open>USERID\<close> as the scan of the connections decides, and as the same line without what
    follows the second number.
  In the first three shapes the line is off the pattern of the specification and the
  connections play no part in the reply.
\<close>

theorem request_line_reading:
  "(c_str sLine = ws1 @ t \<and> white ws1 \<and> no_number t \<longrightarrow>
      GetResponse users sLine sip rip = ''0, 0 : ERROR : INVALID-PORT'' \<and>
      \<not> spec_query_line sLine) \<and>
   (c_str sLine = ws1 @ sg1 @ ds1 @ ws2 @ t \<and> white ws1 \<and> opt_sign sg1 \<and> digit_run ds1 \<and>
    white ws2 \<and> number_ends (ws2 @ t) \<and> no_comma t \<longrightarrow>
      GetResponse users sLine sip rip =
        CString_ushort (stored_hu sg1 ds1) @ '', 0 : ERROR : INVALID-PORT'' \<and>
      \<not> spec_query_line sLine) \<and>
   (c_str sLine = ws1 @ sg1 @ ds1 @ ws2 @ CHR '','' # ws3 @ t \<and> white ws1 \<and> opt_sign sg1 \<and>
    digit_run ds1 \<and> white ws2 \<and> white ws3 \<and> no_number t \<longrightarrow>
      GetResponse users sLine sip rip =
        CString_ushort (stored_hu sg1 ds1) @ '', 0 : ERROR : INVALID-PORT'' \<and>
      \<not> spec_query_line sLine) \<and>
   (c_str sLine = ws1 @ sg1 @ ds1 @ ws2 @ CHR '','' # ws3 @ sg2 @ ds2 @ rest \<and> white ws1 \<and>
    opt_sign sg1 \<and> digit_run ds1 \<and> white ws2 \<and> white ws3 \<and> opt_sign sg2 \<and> digit_run ds2 \<and>
    number_ends rest \<longrightarrow>
      GetResponse users sLine sip rip =
        format_reply (stored_hu sg1 ds1) (stored_hu sg2 ds2)
          (scan_users \<lparr>uLocalPort = stored_hu sg1 ds1, uRemotePort = stored_hu sg2 ds2,
                        sSocketIP = sip, sRemoteIP = rip\<rparr> users (''ERROR'', ''NO-USER'')) \<and>
      (GetResponse users sLine sip rip =
         format_reply (stored_hu sg1 ds1) (stored_hu sg2 ds2) (''ERROR'', ''NO-USER'') \<or>
       (\<exists>ident. GetResponse users sLine sip rip =
         format_reply (stored_hu sg1 ds1) (stored_hu sg2 ds2) (''USERID'', ''UNIX : '' @ ident))) \<and>
      GetResponse users sLine sip rip =
        GetResponse users (ws1 @ sg1 @ ds1 @ ws2 @ CHR '','' # ws3 @ sg2 @ ds2) sip rip) \<and>
   ((\<exists>ws1 t. c_str sLine = ws1 @ t \<and> white ws1 \<and> no_number t) \<or>
    (\<exists>ws1 sg1 ds1 ws2 t. c_str sLine = ws1 @ sg1 @ ds1 @ ws2 @ t \<and> white ws1 \<and> opt_sign sg1 \<and>
        digit_run ds1 \<and> white ws2 \<and> number_ends (ws2 @ t) \<and> no_comma t) \<or>
    (\<exists>ws1 sg1 ds1 ws2 ws3 t. c_str sLine = ws1 @ sg1 @ ds1 @ ws2 @ CHR '','' # ws3 @ t \<and> white ws1 \<and>
        opt_sign sg1 \<and> digit_run ds1 \<and> white ws2 \<and> white ws3 \<and> no_number t) \<or>
    (\<exists>ws1 sg1 ds1 ws2 ws3 sg2 ds2 rest.
        c_str sLine = ws1 @ sg1 @ ds1 @ ws2 @ CHR '','' # ws3 @ sg2 @ ds2 @ rest \<and>
        white ws1 \<and> opt_sign sg1 \<and> digit_run ds1 \<and> white ws2 \<and> white ws3 \<and>
        opt_sign sg2 \<and> digit_run ds2 \<and> number_ends rest)) \<and>
   (sg \<noteq> ''-'' \<and> digits_value ds \<le> ULONG_MAX \<longrightarrow>
      unat (stored_hu sg ds) = digits_value ds mod 65536) \<and>
   (digits_value ds \<le> ULONG_MAX \<longrightarrow> stored_hu ''-'' ds = - of_nat (digits_value ds)) \<and>
   (ULONG_MAX < digits_value ds \<longrightarrow> stored_hu sg ds = 65535)"
proof (intro conjI impI)
  assume "c_str sLine = ws1 @ t \<and> white ws1 \<and> no_number t"
  then have h: "c_str sLine = ws1 @ t" "white ws1" "no_number t" by simp_all
  show "GetResponse users sLine sip rip = ''0, 0 : ERROR : INVALID-PORT''"
    by (rule GetResponse_no_first [OF h])
  show "\<not> spec_query_line sLine"
    by (rule GetResponse_no_first [OF h])
next
  assume "c_str sLine = ws1 @ sg1 @ ds1 @ ws2 @ t \<and> white ws1 \<and> opt_sign sg1 \<and> digit_run ds1 \<and>
    white ws2 \<and> number_ends (ws2 @ t) \<and> no_comma t"
  then have line: "c_str sLine = ws1 @ sg1 @ ds1 @ ws2 @ t"
    and h: "white ws1" "opt_sign sg1" "digit_run ds1" "white ws2" "number_ends (ws2 @ t)" "no_comma t"
    by simp_all
  have p: "sscanf_hu_hu (c_str sLine) 0 0 = (1, stored_hu sg1 ds1, 0)"
    unfolding line by (rule sscanf_no_comma [OF h])
  show "GetResponse users sLine sip rip =
        CString_ushort (stored_hu sg1 ds1) @ '', 0 : ERROR : INVALID-PORT''"
    by (rule GetResponse_first_only [OF p])
  show "\<not> spec_query_line sLine"
    by (rule GetResponse_first_only [OF p])
next
  assume "c_str sLine = ws1 @ sg1 @ ds1 @ ws2 @ CHR '','' # ws3 @ t \<and> white ws1 \<and> opt_sign sg1 \<and>
    digit_run ds1 \<and> white ws2 \<and> white ws3 \<and> no_number t"
  then have line: "c_str sLine = ws1 @ sg1 @ ds1 @ ws2 @ CHR '','' # ws3 @ t"
    and h: "white ws1" "opt_sign sg1" "digit_run ds1" "white ws2" "white ws3" "no_number t"
    by simp_all
  have p: "sscanf_hu_hu (c_str sLine) 0 0 = (1, stored_hu sg1 ds1, 0)"
    unfolding line by (rule sscanf_no_second [OF h])
  show "GetResponse users sLine sip rip =
        CString_ushort (stored_hu sg1 ds1) @ '', 0 : ERROR : INVALID-PORT''"
    by (rule GetResponse_first_only [OF p])
  show "\<not> spec_query_line sLine"
    by (rule GetResponse_first_only [OF p])
next
  assume "c_str sLine = ws1 @ sg1 @ ds1 @ ws2 @ CHR '','' # ws3 @ sg2 @ ds2 @ rest \<and> white ws1 \<and>
    opt_sign sg1 \<and> digit_run ds1 \<and> white ws2 \<and> white ws3 \<and> opt_sign sg2 \<and> digit_run ds2 \<and>
    number_ends rest"
  then have line: "c_str sLine = ws1 @ sg1 @ ds1 @ ws2 @ CHR '','' # ws3 @ sg2 @ ds2 @ rest"
    and h: "white ws1" "opt_sign sg1" "digit_run ds1" "white ws2" "white ws3"
      "opt_sign sg2" "digit_run ds2"
    and e: "number_ends rest"
    by simp_all
  note both = GetResponse_both [OF line h e, of users sip rip]
  show "GetResponse users sLine sip rip =
        format_reply (stored_hu sg1 ds1) (stored_hu sg2 ds2)
          (scan_users \<lparr>uLocalPort = stored_hu sg1 ds1, uRemotePort = stored_hu sg2 ds2,
                        sSocketIP = sip, sRemoteIP = rip\<rparr> users (''ERROR'', ''NO-USER''))"
    by (rule both(1))
  show "GetResponse users sLine sip rip =
         format_reply (stored_hu sg1 ds1) (stored_hu sg2 ds2) (''ERROR'', ''NO-USER'') \<or>
       (\<exists>ident. GetResponse users sLine sip rip =
         format_reply (stored_hu sg1 ds1) (stored_hu sg2 ds2) (''USERID'', ''UNIX : '' @ ident))"
    unfolding both(1)
    using scan_users_answer [of "\<lparr>uLocalPort = stored_hu sg1 ds1, uRemotePort = stored_hu sg2 ds2,
                        sSocketIP = sip, sRemoteIP = rip\<rparr>" users]
    by auto
  show "GetResponse users sLine sip rip =
        GetResponse users (ws1 @ sg1 @ ds1 @ ws2 @ CHR '','' # ws3 @ sg2 @ ds2) sip rip"
    by (rule both(2))
next
  show "(\<exists>ws1 t. c_str sLine = ws1 @ t \<and> white ws1 \<and> no_number t) \<or>
    (\<exists>ws1 sg1 ds1 ws2 t. c_str sLine = ws1 @ sg1 @ ds1 @ ws2 @ t \<and> white ws1 \<and> opt_sign sg1 \<and>
        digit_run ds1 \<and> white ws2 \<and> number_ends (ws2 @ t) \<and> no_comma t) \<or>
    (\<exists>ws1 sg1 ds1 ws2 ws3 t. c_str sLine = ws1 @ sg1 @ ds1 @ ws2 @ CHR '','' # ws3 @ t \<and> white ws1 \<and>
        opt_sign sg1 \<and> digit_run ds1 \<and> white ws2 \<and> white ws3 \<and> no_number t) \<or>
    (\<exists>ws1 sg1 ds1 ws2 ws3 sg2 ds2 rest.
        c_str sLine = ws1 @ sg1 @ ds1 @ ws2 @ CHR '','' # ws3 @ sg2 @ ds2 @ rest \<and>
        white ws1 \<and> opt_sign sg1 \<and> digit_run ds1 \<and> white ws2 \<and> white ws3 \<and>
        opt_sign sg2 \<and> digit_run ds2 \<and> number_ends rest)"
    by (rule request_line_shapes)
next
  assume "sg \<noteq> ''-'' \<and> digits_value ds \<le> ULONG_MAX"
  then show "unat (stored_hu sg ds) = digits_value ds mod 65536"
    by (simp add: stored_hu_plain)
next
  assume "digits_value ds \<le> ULONG_MAX"
  then show "stored_hu ''-'' ds = - of_nat (digits_value ds)" by (rule stored_hu_minus)
next
  assume "ULONG_MAX < digits_value ds"
  then show "stored_hu sg ds = 65535" by (rule stored_hu_overflow)
qed

lemma stored_examples:
  "CString_ushort (stored_hu [] ''70000'') = ''4464''"
  "CString_ushort (stored_hu [] ''6667'') = ''6667''"
  by (simp_all add: stored_hu_def strtoul_value_def ULONG_MAX_def digits_value_def print_eval)

lemmas shape_eval =
  c_str_def white_def opt_sign_def digit_run_def number_ends_def no_number_def no_comma_def
  isspace_def isdigit_def

theorem request_line_reading_witness:
  "GetResponse [alice] ''ident?'' ''10.0.0.5'' ''1.2.3.4'' = ''0, 0 : ERROR : INVALID-PORT'' \<and>
   GetResponse [alice] ''70000 x'' ''10.0.0.5'' ''1.2.3.4'' = ''4464, 0 : ERROR : INVALID-PORT'' \<and>
   GetResponse [alice] ''6667, x'' ''10.0.0.5'' ''1.2.3.4'' = ''6667, 0 : ERROR : INVALID-PORT'' \<and>
   GetResponse [alice] ''6667, 6697 foo'' ''10.0.0.5'' ''1.2.3.4'' =
     GetResponse [alice] ''6667, 6697'' ''10.0.0.5'' ''1.2.3.4'' \<and>
   GetResponse [alice] ''6667, 6697 foo'' ''10.0.0.5'' ''1.2.3.4'' =
     ''6667, 6697 : USERID : UNIX : alice'' \<and>
   \<not> spec_query_line ''ident?'' \<and> \<not> spec_query_line ''70000 x'' \<and> \<not> spec_query_line ''6667, x''"
proof -
  have h1: "c_str ''ident?'' = [] @ ''ident?'' \<and> white [] \<and> no_number ''ident?''"
    by (simp add: shape_eval)
  have h2: "c_str ''70000 x'' = [] @ [] @ ''70000'' @ '' '' @ ''x'' \<and> white [] \<and> opt_sign [] \<and>
      digit_run ''70000'' \<and> white '' '' \<and> number_ends ('' '' @ ''x'') \<and> no_comma ''x''"
    by (simp add: shape_eval)
  have h3: "c_str ''6667, x'' = [] @ [] @ ''6667'' @ [] @ CHR '','' # '' '' @ ''x'' \<and> white [] \<and>
      opt_sign [] \<and> digit_run ''6667'' \<and> white [] \<and> white '' '' \<and> no_number ''x''"
    by (simp add: shape_eval)
  have h4: "c_str ''6667, 6697 foo'' =
        [] @ [] @ ''6667'' @ [] @ CHR '','' # '' '' @ [] @ ''6697'' @ '' foo'' \<and> white [] \<and>
      opt_sign [] \<and> digit_run ''6667'' \<and> white [] \<and> white '' '' \<and> opt_sign [] \<and>
      digit_run ''6697'' \<and> number_ends '' foo''"
    by (simp add: shape_eval)
  note r1 = request_line_reading [THEN conjunct1, rule_format, OF h1,
      of "[alice]" "''10.0.0.5''" "''1.2.3.4''"]
  note r2 = request_line_reading [THEN conjunct2, THEN conjunct1, rule_format, OF h2,
      of "[alice]" "''10.0.0.5''" "''1.2.3.4''"]
  note r3 = request_line_reading [THEN conjunct2, THEN conjunct2, THEN conjunct1, rule_format, OF h3,
      of "[alice]" "''10.0.0.5''" "''1.2.3.4''"]
  note r4 = request_line_reading [THEN conjunct2, THEN conjunct2, THEN conjunct2, THEN conjunct1,
      rule_format, OF h4, of "[alice]" "''10.0.0.5''" "''1.2.3.4''"]
  from r4 [THEN conjunct2, THEN conjunct2]
  have same: "GetResponse [alice] ''6667, 6697 foo'' ''10.0.0.5'' ''1.2.3.4'' =
     GetResponse [alice] ''6667, 6697'' ''10.0.0.5'' ''1.2.3.4''"
    by simp
  from r1 r2 r3 same show ?thesis
    by (simp add: stored_examples response_alice_6667)
qed

lemma response_alice_trailing:
  "GetResponse [alice] ''6667, 6697 foo'' ''10.0.0.5'' ''1.2.3.4'' = ''6667, 6697 : USERID : UNIX : alice''"
  unfolding GetResponse_parsed [OF parse_trailing] observed_def [symmetric] snapshot_alice
  by (simp add: matches_6667_6697 format_reply_def print_6667 print_6697)

lemma response_no_comma:
  "GetResponse [alice] ''6667 6697'' ''10.0.0.5'' ''1.2.3.4'' = ''6667, 0 : ERROR : INVALID-PORT''"
  using GetResponse_unparsed [OF parse_no_comma, of "[alice]" "''10.0.0.5''" "''1.2.3.4''"]
  by (simp add: print_6667 print_0)

lemma off_pattern:
  "\<not> spec_query_line ''6667, 6697 foo''" "\<not> spec_query_line ''6667 6697''"
  by (simp_all add: spec_query_line_def spec_uint16_def isspace_def isdigit_def digits_value_def)

text \<open>
  Claim C4 as the specification states it fails twice. The line \<^verbatim>\<open>6667, 6697 foo\<close> has an
  extra token, so it is off the pattern, and it is answered as the request
  \<^verbatim>\<open>6667, 6697\<close>: the scan of the snapshot decides the reply. The line \<^verbatim>\<open>6667 6697\<close> has
  no comma, and its reply has the local port 6667, not 0.
\<close>

theorem lenient_parse:
  "\<not> spec_query_line ''6667, 6697 foo'' \<and>
   GetResponse [alice] ''6667, 6697 foo'' ''10.0.0.5'' ''1.2.3.4'' = ''6667, 6697 : USERID : UNIX : alice'' \<and>
   \<not> spec_query_line ''6667 6697'' \<and>
   GetResponse [alice] ''6667 6697'' ''10.0.0.5'' ''1.2.3.4'' = ''6667, 0 : ERROR : INVALID-PORT''"
  by (simp add: off_pattern response_alice_trailing response_no_comma)

lemma network_records_null:
  "network_records ident (ns1 @ \<lparr>GetIRCSock = None\<rparr> # ns2) = network_records ident (ns1 @ ns2)"
  by (simp add: network_records_def)

lemma snapshot_null:
  "snapshot (us1 @ pUser\<lparr>GetNetworks := ns1 @ \<lparr>GetIRCSock = None\<rparr> # ns2\<rparr> # us2) =
   snapshot (us1 @ pUser\<lparr>GetNetworks := ns1 @ ns2\<rparr> # us2)"
  by (simp add: snapshot_def network_records_null)

lemma GetResponse_shape:
  "(\<exists>l r ident. GetResponse users sLine sip rip = format_reply l r (''USERID'', ''UNIX : '' @ ident)) \<or>
   (\<exists>l r. GetResponse users sLine sip rip = format_reply l r (''ERROR'', ''NO-USER'')) \<or>
   (\<exists>l r. GetResponse users sLine sip rip = format_reply l r (''ERROR'', ''INVALID-PORT''))"
proof -
  obtain n l r where parse: "sscanf_hu_hu (c_str sLine) 0 0 = (n, l, r)"
    by (cases "sscanf_hu_hu (c_str sLine) 0 0") auto
  let ?q = "\<lparr>uLocalPort = l, uRemotePort = r, sSocketIP = sip, sRemoteIP = rip\<rparr>"
  show ?thesis
  proof (cases "n = 2")
    case True
    with parse have p: "sscanf_hu_hu (c_str sLine) 0 0 = (2, l, r)" by simp
    from scan_records_answer [of ?q "snapshot users" "(''ERROR'', ''NO-USER'')"]
    show ?thesis
    proof
      assume "fst (scan_records ?q (snapshot users) (''ERROR'', ''NO-USER'')) = (''ERROR'', ''NO-USER'')"
      then have "GetResponse users sLine sip rip = format_reply l r (''ERROR'', ''NO-USER'')"
        by (simp add: GetResponse_parsed [OF p])
      then show ?thesis by blast
    next
      assume "\<exists>ident. fst (scan_records ?q (snapshot users) (''ERROR'', ''NO-USER'')) =
                (''USERID'', ''UNIX : '' @ ident)"
      then obtain ident where
        "fst (scan_records ?q (snapshot users) (''ERROR'', ''NO-USER'')) = (''USERID'', ''UNIX : '' @ ident)"
        by blast
      then have "GetResponse users sLine sip rip = format_reply l r (''USERID'', ''UNIX : '' @ ident)"
        by (simp only: GetResponse_parsed [OF p])
      then show ?thesis by blast
    qed
  next
    case False
    with parse have "GetResponse users sLine sip rip = format_reply l r (''ERROR'', ''INVALID-PORT'')"
      by (simp add: GetResponse_def)
    then show ?thesis by blast
  qed
qed

text \<open>
  Claim C10. A network whose IRC socket is null is passed over: the reply is the same
  with the network as without it, wherever it stands among a user's networks, and the same
  when every such network of every user is taken away. The resolver answers every
  request line, with one of the three forms of reply.
\<close>

theorem null_socket_skipped:
  "GetResponse (us1 @ pUser\<lparr>GetNetworks := ns1 @ \<lparr>GetIRCSock = None\<rparr> # ns2\<rparr> # us2) sLine sip rip =
     GetResponse (us1 @ pUser\<lparr>GetNetworks := ns1 @ ns2\<rparr> # us2) sLine sip rip \<and>
   GetResponse (map connected_only users) sLine sip rip = GetResponse users sLine sip rip \<and>
   ((\<exists>l r ident. GetResponse users sLine sip rip = format_reply l r (''USERID'', ''UNIX : '' @ ident)) \<or>
    (\<exists>l r. GetResponse users sLine sip rip = format_reply l r (''ERROR'', ''NO-USER'')) \<or>
    (\<exists>l r. GetResponse users sLine sip rip = format_reply l r (''ERROR'', ''INVALID-PORT'')))"
proof (intro conjI)
  show "GetResponse (us1 @ pUser\<lparr>GetNetworks := ns1 @ \<lparr>GetIRCSock = None\<rparr> # ns2\<rparr> # us2) sLine sip rip =
     GetResponse (us1 @ pUser\<lparr>GetNetworks := ns1 @ ns2\<rparr> # us2) sLine sip rip"
    by (rule GetResponse_snapshot [OF snapshot_null])
next
  show "GetResponse (map connected_only users) sLine sip rip = GetResponse users sLine sip rip"
    by (rule GetResponse_snapshot [OF snapshot_connected_only])
qed (rule GetResponse_shape)

section \<open>The life of the listener\<close>

lemma inv_constructed: "listener_inv constructed"
  by (simp add: listener_inv_def listening_def consumers_def constructed_def)

lemma inv_OnIRCConnecting:
  "listener_inv m \<Longrightarrow> listener_inv (fst (OnIRCConnecting ok c m))"
  by (auto simp: listener_inv_def listening_def consumers_def OnIRCConnecting_def IncreaseUseCount_def
      split: option.splits)

lemma inv_NoLongerNeeds:
  "listener_inv (fst (NoLongerNeedsIdentServer c m))"
  by (auto simp: listener_inv_def listening_def consumers_def NoLongerNeedsIdentServer_def
      DecreaseUseCount_def InUse_def Let_def split: option.splits)

lemma inv_perform: "listener_inv m \<Longrightarrow> listener_inv (fst (perform c m))"
  by (cases c) (simp_all add: inv_OnIRCConnecting inv_NoLongerNeeds)

lemma run_Cons_fst: "fst (run (c # cs) m) = fst (run cs (fst (perform c m)))"
  by (simp split: prod.splits)

lemma run_Cons_snd: "snd (run (c # cs) m) = snd (perform c m) @ snd (run cs (fst (perform c m)))"
  by (simp split: prod.splits)

lemma inv_run: "listener_inv m \<Longrightarrow> listener_inv (fst (run cs m))"
proof (induction cs arbitrary: m)
  case Nil
  then show ?case by simp
next
  case (Cons c cs)
  from Cons.IH [OF inv_perform [OF Cons.prems, of c]]
  show ?case by (simp only: run_Cons_fst)
qed

lemma run_append:
  "run (xs @ ys) m = (case run xs m of (m', evs) \<Rightarrow> (case run ys m' of (m'', evs') \<Rightarrow> (m'', evs @ evs')))"
  by (induction xs arbitrary: m) (auto split: prod.splits)

lemma register_more:
  "S \<noteq> {} \<Longrightarrow> run (map (\<lambda>c. Connecting c (ok c)) cs) \<lparr>m_identServer = Some S, m_listenFailed = f\<rparr>
     = (\<lparr>m_identServer = Some (S \<union> set cs), m_listenFailed = f\<rparr>, [])"
  by (induction cs arbitrary: S) (auto simp: OnIRCConnecting_def IncreaseUseCount_def insert_absorb)

lemma register_all:
  assumes "cs \<noteq> []" "ok (hd cs)"
  shows "run (map (\<lambda>c. Connecting c (ok c)) cs) constructed
     = (\<lparr>m_identServer = Some (set cs), m_listenFailed = False\<rparr>, [Opened])"
proof -
  from assms obtain c cs' where cs: "cs = c # cs'" and ok: "ok c" by (cases cs) auto
  show ?thesis
    unfolding cs using ok
    by (simp add: OnIRCConnecting_def IncreaseUseCount_def constructed_def register_more)
qed

lemma deregister_all:
  "ds \<noteq> [] \<Longrightarrow> distinct ds \<Longrightarrow>
   run (map NoLongerNeeded ds) \<lparr>m_identServer = Some (set ds), m_listenFailed = f\<rparr>
     = (\<lparr>m_identServer = None, m_listenFailed = f\<rparr>, [Closed])"
proof (induction ds)
  case Nil
  then show ?case by simp
next
  case (Cons d ds)
  have rem: "insert d (set ds) - {d} = set ds" using Cons.prems by auto
  show ?case
  proof (cases "ds = []")
    case True
    then show ?thesis
      by (simp add: NoLongerNeedsIdentServer_def DecreaseUseCount_def InUse_def)
  next
    case False
    with Cons have IH: "run (map NoLongerNeeded ds) \<lparr>m_identServer = Some (set ds), m_listenFailed = f\<rparr>
     = (\<lparr>m_identServer = None, m_listenFailed = f\<rparr>, [Closed])" by simp
    from False show ?thesis
      by (simp add: NoLongerNeedsIdentServer_def DecreaseUseCount_def InUse_def rem IH)
  qed
qed

lemma register_then_deregister:
  assumes "cs \<noteq> []" "distinct ds" "set ds = set cs" "ok (hd cs)"
  shows "run (map (\<lambda>c. Connecting c (ok c)) cs @ map NoLongerNeeded ds) constructed
     = (constructed, [Opened, Closed])"
proof -
  from assms(3) assms(1) have ne: "ds \<noteq> []" by auto
  have reg: "run (map (\<lambda>c. Connecting c (ok c)) cs) constructed
     = (\<lparr>m_identServer = Some (set ds), m_listenFailed = False\<rparr>, [Opened])"
    unfolding assms(3) by (rule register_all [of cs ok, OF assms(1) assms(4)])
  have dereg: "run (map NoLongerNeeded ds) \<lparr>m_identServer = Some (set ds), m_listenFailed = False\<rparr>
     = (constructed, [Closed])"
    unfolding constructed_def by (rule deregister_all [OF ne assms(2)])
  show ?thesis
    unfolding run_append reg by (simp add: dereg)
qed

lemma closed_step:
  "\<not> binds c \<Longrightarrow> m_identServer m = None \<Longrightarrow>
   m_identServer (fst (perform c m)) = None \<and>
   m_listenFailed (fst (perform c m)) = (m_listenFailed m \<or> (\<exists>p. c = Connecting p False)) \<and>
   Opened \<notin> set (snd (perform c m)) \<and> Closed \<notin> set (snd (perform c m))"
  by (cases c) (simp_all add: binds_def OnIRCConnecting_def NoLongerNeedsIdentServer_def)

lemma closed_stays:
  "\<forall>c \<in> set cs. \<not> binds c \<Longrightarrow> m_identServer m = None \<Longrightarrow>
   m_identServer (fst (run cs m)) = None \<and>
   m_listenFailed (fst (run cs m)) = (m_listenFailed m \<or> (\<exists>c \<in> set cs. \<exists>p. c = Connecting p False)) \<and>
   Opened \<notin> set (snd (run cs m)) \<and> Closed \<notin> set (snd (run cs m))"
proof (induction cs arbitrary: m)
  case Nil
  then show ?case by simp
next
  case (Cons c cs)
  from Cons.prems have nb: "\<not> binds c" and rest: "\<forall>c \<in> set cs. \<not> binds c" by simp_all
  note st = closed_step [OF nb Cons.prems(2)]
  note IH = Cons.IH [OF rest conjunct1 [OF st]]
  from st IH show ?case
    unfolding run_Cons_fst run_Cons_snd by auto
qed

lemma balance_step:
  "count_list (snd (perform c m)) Opened + (if listening m then 1 else 0) =
   count_list (snd (perform c m)) Closed + (if listening (fst (perform c m)) then 1 else 0)"
  by (cases c)
     (simp_all add: OnIRCConnecting_def NoLongerNeedsIdentServer_def listening_def Let_def
        split: option.splits)

lemma balance_run:
  "count_list (snd (run cs m)) Opened + (if listening m then 1 else 0) =
   count_list (snd (run cs m)) Closed + (if listening (fst (run cs m)) then 1 else (0::nat))"
proof (induction cs arbitrary: m)
  case Nil
  show ?case by simp
next
  case (Cons c cs)
  from balance_step [of c m] Cons.IH [of "fst (perform c m)"] show ?case
    unfolding run_Cons_fst run_Cons_snd by (simp only: count_list_append)
qed

lemma opens_on_first:
  "listener_inv m \<Longrightarrow>
   (Opened \<in> set (snd (OnIRCConnecting ok c m))) =
     (consumers m = {} \<and> consumers (fst (OnIRCConnecting ok c m)) = {c})"
  by (auto simp: listener_inv_def listening_def consumers_def OnIRCConnecting_def
      IncreaseUseCount_def split: option.splits)

lemma closes_on_last:
  "listener_inv m \<Longrightarrow>
   (Closed \<in> set (snd (NoLongerNeedsIdentServer c m))) =
     (consumers m = {c} \<and> consumers (fst (NoLongerNeedsIdentServer c m)) = {})"
  by (auto simp: listener_inv_def listening_def consumers_def NoLongerNeedsIdentServer_def
      DecreaseUseCount_def InUse_def Let_def split: option.splits)

lemma one_event_each:
  "snd (OnIRCConnecting ok c m) \<in> {[Opened], [OpenFailed], []}"
  "snd (NoLongerNeedsIdentServer c m) \<in> {[Closed], []}"
  by (simp_all add: OnIRCConnecting_def NoLongerNeedsIdentServer_def Let_def split: option.splits)

text \<open>
  Claim C5. After any history of calls on a freshly constructed module the listener is
  open if and only if the set of active networks is not empty, and it has been opened
  once more than it has been closed if it is open, as often if it is closed. A call of
  \<^verbatim>\<open>OnIRCConnecting\<close> opens the listener exactly when it takes the set from empty to the one
  network, a call of \<^verbatim>\<open>NoLongerNeedsIdentServer\<close> closes it exactly when it takes the set
  from the one network to empty, and no call does either twice. When \<open>N \<ge> 1\<close> distinct
  networks are registered (the first bind succeeds) and then all of them are deregistered
  in any order, the listener is opened once and closed once, in this order, and the
  module is as it was constructed.
\<close>

theorem listener_lifecycle:
  "listening (fst (run calls constructed)) = (consumers (fst (run calls constructed)) \<noteq> {}) \<and>
   count_list (snd (run calls constructed)) Opened =
     count_list (snd (run calls constructed)) Closed +
       (if listening (fst (run calls constructed)) then 1 else 0) \<and>
   (listener_inv m \<longrightarrow>
      (Opened \<in> set (snd (OnIRCConnecting ok c m))) =
        (consumers m = {} \<and> consumers (fst (OnIRCConnecting ok c m)) = {c})) \<and>
   (listener_inv m \<longrightarrow>
      (Closed \<in> set (snd (NoLongerNeedsIdentServer c m))) =
        (consumers m = {c} \<and> consumers (fst (NoLongerNeedsIdentServer c m)) = {})) \<and>
   snd (OnIRCConnecting ok c m) \<in> {[Opened], [OpenFailed], []} \<and>
   snd (NoLongerNeedsIdentServer c m) \<in> {[Closed], []} \<and>
   (cs \<noteq> [] \<and> distinct cs \<and> distinct ds \<and> set ds = set cs \<and> listen_ok (hd cs) \<longrightarrow>
      run (map (\<lambda>c. Connecting c (listen_ok c)) cs @ map NoLongerNeeded ds) constructed =
        (constructed, [Opened, Closed]))"
proof (intro conjI impI)
  from inv_run [OF inv_constructed, of calls]
  show "listening (fst (run calls constructed)) = (consumers (fst (run calls constructed)) \<noteq> {})"
    by (simp only: listener_inv_def)
next
  have "\<not> listening constructed" by (simp add: listening_def constructed_def)
  with balance_run [of calls constructed]
  show "count_list (snd (run calls constructed)) Opened =
     count_list (snd (run calls constructed)) Closed +
       (if listening (fst (run calls constructed)) then 1 else 0)"
    by simp
next
  assume "listener_inv m"
  then show "(Opened \<in> set (snd (OnIRCConnecting ok c m))) =
        (consumers m = {} \<and> consumers (fst (OnIRCConnecting ok c m)) = {c})"
    by (rule opens_on_first)
next
  assume "listener_inv m"
  then show "(Closed \<in> set (snd (NoLongerNeedsIdentServer c m))) =
        (consumers m = {c} \<and> consumers (fst (NoLongerNeedsIdentServer c m)) = {})"
    by (rule closes_on_last)
next
  show "snd (OnIRCConnecting ok c m) \<in> {[Opened], [OpenFailed], []}" by (rule one_event_each)
next
  show "snd (NoLongerNeedsIdentServer c m) \<in> {[Closed], []}" by (rule one_event_each)
next
  assume "cs \<noteq> [] \<and> distinct cs \<and> distinct ds \<and> set ds = set cs \<and> listen_ok (hd cs)"
  then show "run (map (\<lambda>c. Connecting c (listen_ok c)) cs @ map NoLongerNeeded ds) constructed =
        (constructed, [Opened, Closed])"
    using register_then_deregister [of cs ds listen_ok] by blast
qed

theorem listener_lifecycle_witness:
  "listener_inv constructed \<and>
   Opened \<in> set (snd (OnIRCConnecting True 1 constructed)) \<and>
   consumers (fst (OnIRCConnecting True 1 constructed)) = {1} \<and>
   listener_inv \<lparr>m_identServer = Some {1}, m_listenFailed = False\<rparr> \<and>
   Closed \<in> set (snd (NoLongerNeedsIdentServer 1 \<lparr>m_identServer = Some {1}, m_listenFailed = False\<rparr>)) \<and>
   distinct [1, 2, 3 :: nat] \<and> distinct [2, 3, 1 :: nat] \<and> set [2, 3, 1 :: nat] = set [1, 2, 3] \<and>
   run ([Connecting 1 True, Connecting 2 True, Connecting 3 True] @
        [NoLongerNeeded 2, NoLongerNeeded 3, NoLongerNeeded 1]) constructed =
     (constructed, [Opened, Closed])"
proof -
  let ?one = "\<lparr>m_identServer = Some {1}, m_listenFailed = False\<rparr>"
  have inv: "listener_inv constructed" by (rule inv_constructed)
  have e: "consumers constructed = {}" by (simp add: consumers_def constructed_def)
  have r: "consumers (fst (OnIRCConnecting True 1 constructed)) = {1}"
    by (simp add: consumers_def constructed_def OnIRCConnecting_def IncreaseUseCount_def)
  have inv1: "listener_inv ?one" by (simp add: listener_inv_def listening_def consumers_def)
  have e1: "consumers ?one = {1}" by (simp add: consumers_def)
  have r1: "consumers (fst (NoLongerNeedsIdentServer 1 ?one)) = {}"
    by (simp add: consumers_def NoLongerNeedsIdentServer_def DecreaseUseCount_def InUse_def)
  have p: "[1, 2, 3 :: nat] \<noteq> [] \<and> distinct [1, 2, 3 :: nat] \<and> distinct [2, 3, 1 :: nat] \<and>
      set [2, 3, 1 :: nat] = set [1, 2, 3] \<and> (\<lambda>c. True) (hd [1, 2, 3 :: nat])"
    by auto
  note th = listener_lifecycle [of "[]" constructed True 1 "[1, 2, 3]" "[2, 3, 1]" "\<lambda>c. True"]
  note th1 = listener_lifecycle [of "[]" ?one True 1 "[1, 2, 3]" "[2, 3, 1]" "\<lambda>c. True"]
  from th inv e r have o: "Opened \<in> set (snd (OnIRCConnecting True 1 constructed))"
    by blast
  from th1 inv1 e1 r1 have c: "Closed \<in> set (snd (NoLongerNeedsIdentServer 1 ?one))"
    by blast
  from th p have
    "run (map (\<lambda>c. Connecting c True) [1, 2, 3] @ map NoLongerNeeded [2, 3, 1]) constructed =
       (constructed, [Opened, Closed])"
    by blast
  then have "run ([Connecting 1 True, Connecting 2 True, Connecting 3 True] @
        [NoLongerNeeded 2, NoLongerNeeded 3, NoLongerNeeded 1]) constructed =
     (constructed, [Opened, Closed])"
    by simp
  with inv o r inv1 c p show ?thesis by blast
qed

text \<open>
  Claim C6. The set of active networks is empty and \<^verbatim>\<open>OnIRCConnecting\<close> fails to bind the
  port: the network is not added, the listener stays closed and \<open>m_listenFailed\<close> is set.
  Through any further calls in which no bind succeeds the set stays empty, the listener
  stays closed and the flag stays set. The next bind that succeeds opens the listener,
  registers its network and clears the flag.
\<close>

theorem failed_bind_is_sticky:
  assumes "listener_inv m" and "consumers m = {}"
    and "m1 = fst (OnIRCConnecting False c m)"
    and "\<forall>x \<in> set calls. \<not> binds x"
    and "m2 = fst (run calls m1)"
    and "m3 = fst (OnIRCConnecting True c' m2)"
  shows "snd (OnIRCConnecting False c m) = [OpenFailed] \<and>
         consumers m1 = {} \<and> \<not> listening m1 \<and> m_listenFailed m1 \<and>
         consumers m2 = {} \<and> \<not> listening m2 \<and> m_listenFailed m2 \<and>
         snd (OnIRCConnecting True c' m2) = [Opened] \<and>
         consumers m3 = {c'} \<and> listening m3 \<and> \<not> m_listenFailed m3"
proof -
  from assms(1,2) have closed: "m_identServer m = None"
    by (auto simp: listener_inv_def listening_def)
  then have step: "OnIRCConnecting False c m = (m\<lparr>m_listenFailed := True, m_identServer := None\<rparr>, [OpenFailed])"
    by (simp add: OnIRCConnecting_def)
  have m1: "m_identServer m1 = None" "m_listenFailed m1"
    unfolding assms(3) step by simp_all
  from closed_stays [OF assms(4) m1(1)] m1(2) have m2: "m_identServer m2 = None" "m_listenFailed m2"
    unfolding assms(5) by simp_all
  have m3: "OnIRCConnecting True c' m2 = (m2\<lparr>m_listenFailed := False, m_identServer := Some {c'}\<rparr>, [Opened])"
    using m2(1) by (simp add: OnIRCConnecting_def IncreaseUseCount_def)
  show ?thesis
    unfolding assms(6) m3 step
    using m1 m2 by (simp add: consumers_def listening_def)
qed

theorem failed_bind_is_sticky_witness:
  "listener_inv constructed \<and> consumers constructed = {} \<and>
   m_listenFailed (fst (OnIRCConnecting False 1 constructed)) \<and>
   m_listenFailed (fst (run [NoLongerNeeded 1, Connecting 2 False, NoLongerNeeded 2]
                          (fst (OnIRCConnecting False 1 constructed)))) \<and>
   \<not> m_listenFailed (fst (OnIRCConnecting True 3
        (fst (run [NoLongerNeeded 1, Connecting 2 False, NoLongerNeeded 2]
                          (fst (OnIRCConnecting False 1 constructed))))))"
proof -
  have e: "consumers constructed = {}" by (simp add: consumers_def constructed_def)
  have q: "\<forall>x \<in> set [NoLongerNeeded 1, Connecting 2 False, NoLongerNeeded 2]. \<not> binds x"
    by (simp add: binds_def)
  from failed_bind_is_sticky [OF inv_constructed e refl q refl refl, of 1 3] inv_constructed e
  show ?thesis by blast
qed

lemma deregister_absent:
  "listener_inv m \<Longrightarrow> c \<notin> consumers m \<Longrightarrow> NoLongerNeedsIdentServer c m = (m, [])"
  by (auto simp: listener_inv_def listening_def consumers_def NoLongerNeedsIdentServer_def
      DecreaseUseCount_def InUse_def Let_def split: option.splits)

text \<open>
  Claim C9. \<^verbatim>\<open>IncreaseUseCount\<close> of a network that is in the set returns false and leaves the
  set as it is; \<^verbatim>\<open>DecreaseUseCount\<close> of a network that is not in the set returns false and
  leaves the set as it is. For the module, \<^verbatim>\<open>OnIRCConnecting\<close> for a registered network
  and \<^verbatim>\<open>NoLongerNeedsIdentServer\<close> for a network that is not registered change nothing:
  not the set, not the flag, not whether the listener is open, and the socket sees no
  event. The latter holds in every state in which the listener is open only if the set
  is not empty, so in every state the module reaches from its construction.
\<close>

theorem membership_idempotent:
  "(c \<in> S \<longrightarrow> IncreaseUseCount c S = (False, S)) \<and>
   (c \<notin> S \<longrightarrow> DecreaseUseCount c S = (False, S)) \<and>
   (c \<in> consumers m \<longrightarrow> OnIRCConnecting ok c m = (m, [])) \<and>
   (listener_inv m \<and> c \<notin> consumers m \<longrightarrow> NoLongerNeedsIdentServer c m = (m, [])) \<and>
   (c \<notin> consumers (fst (run calls constructed)) \<longrightarrow>
      NoLongerNeedsIdentServer c (fst (run calls constructed)) = (fst (run calls constructed), []))"
proof (intro conjI impI)
  assume "c \<in> S"
  then show "IncreaseUseCount c S = (False, S)" by (simp add: IncreaseUseCount_def)
next
  assume "c \<notin> S"
  then show "DecreaseUseCount c S = (False, S)" by (simp add: DecreaseUseCount_def)
next
  assume "c \<in> consumers m"
  then show "OnIRCConnecting ok c m = (m, [])"
    by (auto simp: consumers_def OnIRCConnecting_def IncreaseUseCount_def split: option.splits)
next
  assume "listener_inv m \<and> c \<notin> consumers m"
  then show "NoLongerNeedsIdentServer c m = (m, [])"
    by (simp add: deregister_absent)
next
  assume "c \<notin> consumers (fst (run calls constructed))"
  with inv_run [OF inv_constructed, of calls]
  show "NoLongerNeedsIdentServer c (fst (run calls constructed)) = (fst (run calls constructed), [])"
    by (simp add: deregister_absent)
qed

theorem membership_idempotent_witness:
  "IncreaseUseCount 1 {1, 2} = (False, {1, 2}) \<and>
   DecreaseUseCount 3 {1, 2} = (False, {1, 2}) \<and>
   OnIRCConnecting False 1 \<lparr>m_identServer = Some {1, 2}, m_listenFailed = False\<rparr> =
     (\<lparr>m_identServer = Some {1, 2}, m_listenFailed = False\<rparr>, []) \<and>
   NoLongerNeedsIdentServer 3 \<lparr>m_identServer = Some {1, 2}, m_listenFailed = False\<rparr> =
     (\<lparr>m_identServer = Some {1, 2}, m_listenFailed = False\<rparr>, [])"
proof -
  let ?m = "\<lparr>m_identServer = Some {1, 2}, m_listenFailed = False\<rparr>"
  have a: "(1::nat) \<in> {1, 2}" and b: "(3::nat) \<notin> {1, 2}" by simp_all
  have c: "1 \<in> consumers ?m" and d: "listener_inv ?m \<and> 3 \<notin> consumers ?m"
    by (simp_all add: consumers_def listener_inv_def listening_def)
  from membership_idempotent [of 1 "{1, 2}" ?m False "[]"] a c
       membership_idempotent [of 3 "{1, 2}" ?m False "[]"] b d
  show ?thesis by blast
qed

end
